theory Spec2Isabelle
  imports Main "HOL-Library.Sublist"
begin

section \<open>The scroll convergence driver\<close>

text \<open>
  \<^verbatim>\<open>scroll_and_load_comments\<close> (xhs/code/xhs_comments_scraper.py and, with the same
  text, xhs/code/cookie_extractor.py) and \<^verbatim>\<open>scroll_and_expand\<close>
  (xhs/xhs_comment_image_scraper.py) run the same loop:
  \<^verbatim>\<open>
    last_height = 0
    stable_rounds = 0
    for round_num in range(max_rounds):
        curr_height = await page.evaluate("document.body.scrollHeight")
        await page.evaluate("window.scrollTo(0, document.body.scrollHeight)")
        await page.wait_for_timeout(int(sleep_sec * 1000))
        ... click a "load more" control, every exception caught ...
        new_height = await page.evaluate("document.body.scrollHeight")
        if new_height == curr_height == last_height:
            stable_rounds += 1
            if stable_rounds >= 3:      # 2 in scroll_and_expand
                break
        else:
            stable_rounds = 0
            last_height = new_height
  \<close>
  The browser page is the environment. What it answers in round \<open>k\<close> (counted from 0,
  as \<^verbatim>\<open>round_num\<close>) is a \<open>round_obs\<close>: the height read before scrolling, whether the
  scroll and the wait went through, and the height read afterwards. \<open>None\<close> and \<open>False\<close>
  stand for an exception raised by the call; the loop has no handler around these calls,
  so the exception leaves the function. The click phase sits inside
  \<^verbatim>\<open>try ... except\<close> in both files and assigns no variable that is read after it, so
  its only effect on the loop is through the height read afterwards.
\<close>

record round_obs =
  curr_read :: "int option"
  scroll_ok :: bool
  new_read :: "int option"

record scroll_state =
  last_height :: int
  stable_rounds :: nat

datatype round_outcome = Raised | Break scroll_state | Continue scroll_state

datatype scroll_exit = Stability_reached | Budget_exhausted | Exception_raised

record scroll_result =
  exit_by :: scroll_exit
  rounds_run :: nat
  final :: scroll_state

text \<open>One pass through the loop body; \<open>thr\<close> is the constant of the \<^verbatim>\<open>>=\<close> test.\<close>

definition scroll_round :: "nat \<Rightarrow> round_obs \<Rightarrow> scroll_state \<Rightarrow> round_outcome" where
  "scroll_round thr ob s =
     (case curr_read ob of
        None \<Rightarrow> Raised
      | Some curr_height \<Rightarrow>
          if \<not> scroll_ok ob then Raised
          else (case new_read ob of
                  None \<Rightarrow> Raised
                | Some new_height \<Rightarrow>
                    if new_height = curr_height \<and> curr_height = last_height s
                    then (let s' = s\<lparr>stable_rounds := stable_rounds s + 1\<rparr>
                          in if thr \<le> stable_rounds s' then Break s' else Continue s')
                    else Continue \<lparr>last_height = new_height, stable_rounds = 0\<rparr>))"

text \<open>
  The \<^verbatim>\<open>for\<close> loop: \<open>round_num\<close> is the loop variable and \<open>left\<close> the number of values
  \<^verbatim>\<open>range(max_rounds)\<close> has still to deliver. \<open>rounds_run\<close> counts the rounds entered.
\<close>

fun scroll_loop :: "nat \<Rightarrow> (nat \<Rightarrow> round_obs) \<Rightarrow> nat \<Rightarrow> nat \<Rightarrow> scroll_state \<Rightarrow> scroll_result" where
  "scroll_loop thr page round_num 0 s =
     \<lparr>exit_by = Budget_exhausted, rounds_run = round_num, final = s\<rparr>"
| "scroll_loop thr page round_num (Suc left) s =
     (case scroll_round thr (page round_num) s of
        Raised \<Rightarrow> \<lparr>exit_by = Exception_raised, rounds_run = Suc round_num, final = s\<rparr>
      | Break s' \<Rightarrow> \<lparr>exit_by = Stability_reached, rounds_run = Suc round_num, final = s'\<rparr>
      | Continue s' \<Rightarrow> scroll_loop thr page (Suc round_num) left s')"

definition scroll_init :: scroll_state where
  "scroll_init = \<lparr>last_height = 0, stable_rounds = 0\<rparr>"

text \<open>\<^verbatim>\<open>range(max_rounds)\<close> is empty for a negative \<^verbatim>\<open>max_rounds\<close>, as \<open>nat\<close> of it is 0.\<close>

definition scroll_and_load_comments :: "(nat \<Rightarrow> round_obs) \<Rightarrow> int \<Rightarrow> scroll_result" where
  "scroll_and_load_comments page max_rounds =
     scroll_loop 3 page 0 (nat max_rounds) scroll_init"

definition scroll_and_expand :: "(nat \<Rightarrow> round_obs) \<Rightarrow> int \<Rightarrow> scroll_result" where
  "scroll_and_expand page max_rounds =
     scroll_loop 2 page 0 (nat max_rounds) scroll_init"

subsection \<open>Simulated pages\<close>

text \<open>
  A page on which no call raises, given by the pair of heights (before the scroll, after
  the round's actions) it shows in each round.
\<close>

definition calm_page :: "(nat \<Rightarrow> int \<times> int) \<Rightarrow> nat \<Rightarrow> round_obs" where
  "calm_page h k = \<lparr>curr_read = Some (fst (h k)), scroll_ok = True, new_read = Some (snd (h k))\<rparr>"

text \<open>
  The \<open>k\<close>-th height of a simulated height sequence, counted from 0 as the rounds are. A
  page keeps its last height once the sequence is used up.
\<close>

definition height_at :: "int list \<Rightarrow> nat \<Rightarrow> int" where
  "height_at hs k = (if k < length hs then hs ! k else if hs = [] then 0 else last hs)"

text \<open>
  The \<open>k\<close>-th height is the one the page has when round \<open>k\<close> begins, and the round's
  actions bring the page to the next height of the list: the read before the scroll sees
  the \<open>k\<close>-th height and the read after the actions the one that follows.
\<close>

definition start_heights :: "int list \<Rightarrow> nat \<Rightarrow> int \<times> int" where
  "start_heights hs k = (height_at hs k, height_at hs (Suc k))"

text \<open>
  The \<open>k\<close>-th height is the one the page has when round \<open>k\<close> ends: the read before the
  scroll still sees the height of the round before (\<open>h0\<close> in the first round).
\<close>

definition end_heights :: "int \<Rightarrow> int list \<Rightarrow> nat \<Rightarrow> int \<times> int" where
  "end_heights h0 hs k = ((if k = 0 then h0 else height_at hs (k - 1)), height_at hs k)"

text \<open>
  The page has the \<open>k\<close>-th height throughout round \<open>k\<close>: both reads of the round see it.
\<close>

definition steady_heights :: "int list \<Rightarrow> nat \<Rightarrow> int \<times> int" where
  "steady_heights hs k = (height_at hs k, height_at hs k)"

text \<open>
  Round \<open>k\<close> shows no change: the height after the round equals the height before it and
  the height left by the round before (0 before the first round, the initial
  \<^verbatim>\<open>last_height\<close>).
\<close>

definition prev_height :: "(nat \<Rightarrow> int \<times> int) \<Rightarrow> nat \<Rightarrow> int" where
  "prev_height h k = (if k = 0 then 0 else snd (h (k - 1)))"

definition still :: "(nat \<Rightarrow> int \<times> int) \<Rightarrow> nat \<Rightarrow> bool" where
  "still h k \<longleftrightarrow> snd (h k) = fst (h k) \<and> fst (h k) = prev_height h k"

text \<open>
  The stable-round counter as the specification describes it, read off the heights alone:
  it goes back to 0 on a round that is not \<open>still\<close> and grows by one otherwise.
  \<open>state_after h k\<close> is the state this predicts when \<open>k\<close> rounds have run.
\<close>

fun run_len :: "(nat \<Rightarrow> int \<times> int) \<Rightarrow> nat \<Rightarrow> nat" where
  "run_len h 0 = 0"
| "run_len h (Suc k) = (if still h k then Suc (run_len h k) else 0)"

definition state_after :: "(nat \<Rightarrow> int \<times> int) \<Rightarrow> nat \<Rightarrow> scroll_state" where
  "state_after h k = \<lparr>last_height = prev_height h k, stable_rounds = run_len h k\<rparr>"


section \<open>The record extractor\<close>

text \<open>
  \<^verbatim>\<open>extract_comments\<close> (xhs/code/xhs_comments_scraper.py, and with the same text
  xhs/code/cookie_extractor.py) sends one JavaScript function to the page and returns its
  \<^verbatim>\<open>comments\<close> field. A JavaScript string is a sequence of UTF-16 code units:
  \<^verbatim>\<open>length\<close>, \<^verbatim>\<open>substring\<close>, \<^verbatim>\<open>includes\<close> and \<^verbatim>\<open>===\<close> all work on code units, so
  a string is modelled as the list of its code units.
\<close>

type_synonym js_string = "nat list"

text \<open>An ASCII literal, written as an Isabelle string.\<close>

definition ascii :: "string \<Rightarrow> js_string" where
  "ascii s = map of_char s"

text \<open>The literals of the script that are not ASCII, by their code units.\<close>

definition s_expand_more :: js_string where
  "s_expand_more = [0x5C55, 0x5F00, 0x66F4, 0x591A]"

definition s_view_all :: js_string where
  "s_view_all = [0x67E5, 0x770B, 0x5168, 0x90E8]"

definition s_comment_label :: js_string where
  "s_comment_label = [0x8BC4, 0x8BBA]"

definition s_like_label :: js_string where
  "s_like_label = [0x70B9, 0x8D5E]"

definition s_reply_label :: js_string where
  "s_reply_label = [0x56DE, 0x590D]"

definition s_login :: js_string where
  "s_login = [0x767B, 0x5F55]"

definition s_register :: js_string where
  "s_register = [0x6CE8, 0x518C]"

definition s_heart :: js_string where
  "s_heart = [0x2764, 0xFE0F]"

definition s_thumbs_up :: js_string where
  "s_thumbs_up = [0xD83D, 0xDC4D]"

definition s_minutes_ago :: js_string where
  "s_minutes_ago = [0x5206, 0x949F, 0x524D]"

definition s_hours_ago :: js_string where
  "s_hours_ago = [0x5C0F, 0x65F6, 0x524D]"

definition s_days_ago :: js_string where
  "s_days_ago = [0x5929, 0x524D]"

definition s_just_now :: js_string where
  "s_just_now = [0x521A, 0x521A]"

text \<open>
  \<^verbatim>\<open>String.prototype.trim\<close> removes white space and line terminators from both ends:
  TAB, LF, VT, FF, CR, SP, NBSP, U+1680, U+2000 to U+200A, LS, PS, U+202F, U+205F, U+3000
  and the byte order mark.
\<close>

definition js_whitespace :: "nat \<Rightarrow> bool" where
  "js_whitespace c \<longleftrightarrow>
     c \<in> {0x9, 0xA, 0xB, 0xC, 0xD, 0x20, 0xA0, 0x1680, 0x2028, 0x2029, 0x202F, 0x205F,
          0x3000, 0xFEFF}
     \<or> (0x2000 \<le> c \<and> c \<le> 0x200A)"

definition js_trim :: "js_string \<Rightarrow> js_string" where
  "js_trim s = rev (dropWhile js_whitespace (rev (dropWhile js_whitespace s)))"

text \<open>\<^verbatim>\<open>s.includes(sub)\<close>: \<open>sub\<close> occurs in \<open>s\<close> as a contiguous run.\<close>

fun js_includes :: "js_string \<Rightarrow> js_string \<Rightarrow> bool" where
  "js_includes [] sub = (sub = [])"
| "js_includes (c # s) sub = (prefix sub (c # s) \<or> js_includes s sub)"

text \<open>
  \<^verbatim>\<open>likeText.match(/\d+/)\<close> and \<^verbatim>\<open>parseInt(match[0])\<close>: the first run of the digits 0 to
  9, read in base 10. \<^verbatim>\<open>parseInt\<close> yields a double. Every integer up to \<open>2 ^ 53\<close> is a
  double, so a run whose value is at most \<open>2 ^ 53\<close> yields that value, \<open>Exact\<close>. A run of a
  greater value yields a double near it (\<^verbatim>\<open>Infinity\<close> for the longest runs), chosen by the
  engine's rounding; the model does not compute that double and keeps the run it is read
  from, \<open>Rounded\<close>.
\<close>

datatype js_number = Exact nat | Rounded js_string

definition js_digit :: "nat \<Rightarrow> bool" where
  "js_digit c \<longleftrightarrow> 48 \<le> c \<and> c \<le> 57"

definition first_digits :: "js_string \<Rightarrow> js_string" where
  "first_digits s = takeWhile js_digit (dropWhile (\<lambda>c. \<not> js_digit c) s)"

definition parseInt :: "js_string \<Rightarrow> js_number" where
  "parseInt ds =
     (let n = foldl (\<lambda>n c. 10 * n + (c - 48)) 0 ds
      in if n \<le> 2 ^ 53 then Exact n else Rounded ds)"

text \<open>
  What the script reads of a DOM element: its text, class, tag name and id, and, of the
  descendants matched by the three nested selector lists (in document order), the text
  of the user and like nodes and the text and \<^verbatim>\<open>datetime\<close> attribute of the time nodes.
\<close>

record element =
  textContent :: js_string
  className :: js_string
  tagName :: js_string
  elem_id :: js_string
  user_nodes :: "js_string list"
  time_nodes :: "(js_string \<times> js_string option) list"
  like_nodes :: "js_string list"

text \<open>
  The object pushed for a candidate. \<open>index\<close> is the \<^verbatim>\<open>forEach\<close> index interpolated into
  \<^verbatim>\<open>id\<close>; the two readings of the clock (\<^verbatim>\<open>Date.now()\<close> in \<^verbatim>\<open>id\<close>, and
  \<^verbatim>\<open>extracted_at\<close>) are left out.
\<close>

record comment =
  index :: nat
  content :: js_string
  username :: js_string
  timestamp :: js_string
  like_count :: js_number
  element_class :: js_string
  element_tag :: js_string
  element_id :: js_string

definition username_of :: "element \<Rightarrow> js_string" where
  "username_of e = (case user_nodes e of [] \<Rightarrow> [] | t # _ \<Rightarrow> js_trim t)"

definition timestamp_of :: "element \<Rightarrow> js_string" where
  "timestamp_of e =
     (case time_nodes e of
        [] \<Rightarrow> []
      | (t, datetime) # _ \<Rightarrow>
          if js_trim t \<noteq> [] then js_trim t
          else (case datetime of None \<Rightarrow> [] | Some d \<Rightarrow> d))"

fun like_count_of :: "js_string list \<Rightarrow> js_number" where
  "like_count_of [] = Exact 0"
| "like_count_of (t # ts) =
     (if first_digits (js_trim t) \<noteq> [] then parseInt (first_digits (js_trim t))
      else like_count_of ts)"

text \<open>The filter at the head of the \<^verbatim>\<open>forEach\<close> body: the candidate is skipped.\<close>

definition skipped :: "js_string \<Rightarrow> bool" where
  "skipped text \<longleftrightarrow>
     length text < 2 \<or>
     js_includes text s_expand_more \<or>
     js_includes text s_view_all \<or>
     text = s_comment_label \<or>
     text = s_like_label \<or>
     text = s_reply_label \<or>
     js_includes text s_login \<or>
     js_includes text s_register"

definition parse_candidate :: "nat \<Rightarrow> element \<Rightarrow> comment option" where
  "parse_candidate i e =
     (let text = js_trim (textContent e) in
      if skipped text then None
      else Some \<lparr>index = i, content = text, username = username_of e,
                 timestamp = timestamp_of e, like_count = like_count_of (like_nodes e),
                 element_class = className e, element_tag = tagName e,
                 element_id = elem_id e\<rparr>)"

text \<open>\<^verbatim>\<open>commentElements.forEach((element, index) => ...)\<close>, pushing onto \<^verbatim>\<open>comments\<close>.\<close>

definition collect_comments :: "element list \<Rightarrow> comment list" where
  "collect_comments els = List.map_filter (\<lambda>(i, e). parse_candidate i e) (enumerate 0 els)"

subsection \<open>Deduplication\<close>

text \<open>
  \<^verbatim>\<open>
    const uniqueComments = [];
    const seenContent = new Set();
    for (const comment of comments) {
        const contentKey = comment.content.substring(0, 30);
        if (!seenContent.has(contentKey) && comment.content.length > 3) {
            seenContent.add(contentKey);
            uniqueComments.push(comment);
        }
    }
  \<close>
  The loop state is the pair of \<^verbatim>\<open>seenContent\<close> and \<^verbatim>\<open>uniqueComments\<close>.
\<close>

definition contentKey :: "comment \<Rightarrow> js_string" where
  "contentKey c = take 30 (content c)"

definition dedup_step :: "js_string set \<times> comment list \<Rightarrow> comment \<Rightarrow> js_string set \<times> comment list" where
  "dedup_step st c =
     (if contentKey c \<notin> fst st \<and> 3 < length (content c)
      then (insert (contentKey c) (fst st), snd st @ [c])
      else st)"

definition uniqueComments :: "comment list \<Rightarrow> comment list" where
  "uniqueComments comments = snd (foldl dedup_step ({}, []) comments)"

subsection \<open>Finding the candidates\<close>

text \<open>
  The document answers \<^verbatim>\<open>document.querySelectorAll(selector)\<close> with the matched
  elements in document order; \<open>None\<close> stands for a call that throws. The entries of
  \<^verbatim>\<open>debugInfo.searchResults\<close> are kept as pairs of the selector and the number found
  (their \<^verbatim>\<open>samples\<close>, and \<^verbatim>\<open>debugInfo.errors\<close>, are left out).
\<close>

type_synonym dom = "string \<Rightarrow> element list option"

definition selectors :: "string list" where
  \<open>selectors =
     [''[class*="comment"]'',
      ''[class*="Comment"]'',
      ''[data-testid*="comment"]'',
      ''.comment-item'',
      ''.comment-list .comment'',
      ''[class*="note-comment"]'',
      ''[class*="NoteComment"]'',
      ''[class*="feed-comment"]'',
      ''[class*="user-comment"]'',
      ''[class*="interaction"]'']\<close>

definition generic_tags :: string where
  "generic_tags = ''div, section, article, span, p''"

text \<open>
  The \<^verbatim>\<open>for (const selector of selectors)\<close> loop with its \<^verbatim>\<open>try ... catch\<close>: a selector
  that throws is passed over, one that matches nothing is logged and passed over, and
  the first one that matches something ends the loop.
\<close>

fun try_selectors :: "dom \<Rightarrow> string list \<Rightarrow> (string \<times> nat) list \<Rightarrow> element list \<times> (string \<times> nat) list" where
  "try_selectors d [] log = ([], log)"
| "try_selectors d (selector # rest) log =
     (case d selector of
        None \<Rightarrow> try_selectors d rest log
      | Some elements \<Rightarrow>
          if 0 < length elements then (elements, log @ [(selector, length elements)])
          else try_selectors d rest (log @ [(selector, length elements)]))"

text \<open>
  The filter of the text-feature search. \<^verbatim>\<open>className.toLowerCase()\<close> is the JavaScript
  runtime's case mapping; it is a parameter of the model.
\<close>

definition text_feature :: "(js_string \<Rightarrow> js_string) \<Rightarrow> element \<Rightarrow> bool" where
  "text_feature toLowerCase el \<longleftrightarrow>
     5 < length (textContent el) \<and> length (textContent el) < 2000 \<and>
     (js_includes (toLowerCase (className el)) (ascii ''comment'') \<or>
      js_includes (textContent el) s_reply_label \<or>
      js_includes (textContent el) s_like_label \<or>
      js_includes (textContent el) s_heart \<or>
      js_includes (textContent el) s_thumbs_up \<or>
      js_includes (textContent el) s_minutes_ago \<or>
      js_includes (textContent el) s_hours_ago \<or>
      js_includes (textContent el) s_days_ago \<or>
      js_includes (textContent el) s_just_now)"

text \<open>
  \<^verbatim>\<open>commentElements\<close> and \<^verbatim>\<open>debugInfo.searchResults\<close> when the candidates are about to
  be parsed; \<open>None\<close> when the query of the text-feature search throws, which is outside
  every \<^verbatim>\<open>try\<close> of the script.
\<close>

definition comment_elements :: "(js_string \<Rightarrow> js_string) \<Rightarrow> dom \<Rightarrow> (element list \<times> (string \<times> nat) list) option" where
  "comment_elements toLowerCase d =
     (case try_selectors d selectors [] of
        (found, log) \<Rightarrow>
          if length found = 0
          then (case d generic_tags of
                  None \<Rightarrow> None
                | Some allElements \<Rightarrow>
                    Some (filter (text_feature toLowerCase) allElements,
                          log @ [(''text-feature-based'',
                                  length (filter (text_feature toLowerCase) allElements))]))
          else Some (found, log))"

text \<open>The script as a whole: its \<^verbatim>\<open>comments\<close> and its search log.\<close>

definition extract_script :: "(js_string \<Rightarrow> js_string) \<Rightarrow> dom \<Rightarrow> (comment list \<times> (string \<times> nat) list) option" where
  "extract_script toLowerCase d =
     (case comment_elements toLowerCase d of
        None \<Rightarrow> None
      | Some (els, log) \<Rightarrow> Some (uniqueComments (collect_comments els), log))"

text \<open>
  \<^verbatim>\<open>extract_comments\<close>: \<^verbatim>\<open>page.evaluate(js_code)\<close> inside \<^verbatim>\<open>try ... except Exception\<close>,
  which returns the empty list. The page is \<open>None\<close> when the call raises before the
  script has run.
\<close>

definition extract_comments :: "(js_string \<Rightarrow> js_string) \<Rightarrow> dom option \<Rightarrow> comment list" where
  "extract_comments toLowerCase page =
     (case page of
        None \<Rightarrow> []
      | Some d \<Rightarrow> (case extract_script toLowerCase d of None \<Rightarrow> [] | Some (cs, log) \<Rightarrow> cs))"

text \<open>A candidate that consists of its text alone.\<close>

definition text_element :: "js_string \<Rightarrow> element" where
  "text_element t = \<lparr>textContent = t, className = [], tagName = ascii ''DIV'', elem_id = [],
                     user_nodes = [], time_nodes = [], like_nodes = []\<rparr>"

text \<open>A parsed record that carries a position and a content only.\<close>

definition bare_comment :: "nat \<Rightarrow> js_string \<Rightarrow> comment" where
  "bare_comment i t = \<lparr>index = i, content = t, username = [], timestamp = [], like_count = Exact 0,
                       element_class = [], element_tag = [], element_id = []\<rparr>"

text \<open>
  For the statements about the deduplication: the record at position \<open>i\<close> is longer than
  3 code units and no record before it has its key; and the keys of the records longer
  than 3 code units, which is what \<^verbatim>\<open>seenContent\<close> holds after the loop.
\<close>

definition first_of_key :: "comment list \<Rightarrow> nat \<Rightarrow> bool" where
  "first_of_key cs i \<longleftrightarrow>
     3 < length (content (cs ! i)) \<and> (\<forall>j<i. contentKey (cs ! j) \<noteq> contentKey (cs ! i))"

definition long_keys :: "comment list \<Rightarrow> js_string set" where
  "long_keys cs = contentKey ` {c \<in> set cs. 3 < length (content c)}"

text \<open>A selector that yields no element: the query throws or matches nothing.\<close>

definition no_match :: "dom \<Rightarrow> string \<Rightarrow> bool" where
  "no_match d selector \<longleftrightarrow> d selector = None \<or> d selector = Some []"

section \<open>The scrape as a whole\<close>




section \<open>Session preparation from a cookie string\<close>

text \<open>
  A Python \<^verbatim>\<open>str\<close> is modelled as a \<open>string\<close>, a character being a code point below 256.
  \<^verbatim>\<open>str.strip()\<close> removes from both ends the characters for which \<^verbatim>\<open>str.isspace\<close> holds:
  in this range TAB, LF, VT, FF, CR, the separators FS, GS, RS and US, the space, NEL
  (0x85) and the no-break space (0xA0).
\<close>

definition py_space :: "char \<Rightarrow> bool" where
  "py_space c \<longleftrightarrow>
     (of_char c :: nat) \<in> {0x09, 0x0A, 0x0B, 0x0C, 0x0D, 0x1C, 0x1D, 0x1E, 0x1F, 0x20, 0x85, 0xA0}"

definition py_strip :: "string \<Rightarrow> string" where
  "py_strip s = rev (dropWhile py_space (rev (dropWhile py_space s)))"

text \<open>
  \<^verbatim>\<open>s.split(sep)\<close> for a separator of one character: the pieces between the separators,
  empty pieces included, so that the empty string has the one piece \<^verbatim>\<open>''\<close>.
\<close>

fun py_split :: "char \<Rightarrow> string \<Rightarrow> string list" where
  "py_split sep [] = [[]]"
| "py_split sep (c # cs) =
     (if c = sep then [] # py_split sep cs
      else (case py_split sep cs of
              [] \<Rightarrow> [[c]]
            | piece # pieces \<Rightarrow> (c # piece) # pieces))"

text \<open>\<^verbatim>\<open>sep.join(parts)\<close> for a separator of one character.\<close>

fun py_join :: "char \<Rightarrow> string list \<Rightarrow> string" where
  "py_join sep [] = []"
| "py_join sep [p] = p"
| "py_join sep (p # q # ps) = p @ sep # py_join sep (q # ps)"

text \<open>
  The dictionary \<^verbatim>\<open>parse_cookie_string\<close> (xhs/code/cookie_extractor.py) builds for a pair:
  \<^verbatim>\<open>
    cookie = {"name": name, "value": value, "domain": ".xiaohongshu.com", "path": "/",
              "httpOnly": False, "secure": True, "sameSite": "Lax"}
    if name in ['web_session', 'a1', 'websectiga']:
        cookie["httpOnly"] = True
    expires_timestamp = int(time.time()) + (24 * 60 * 60)
    cookie["expires"] = expires_timestamp
  \<close>
  \<open>now\<close> is what \<^verbatim>\<open>int(time.time())\<close> returns at that moment.
\<close>

record cookie =
  c_name :: string
  c_value :: string
  c_domain :: string
  c_path :: string
  c_httpOnly :: bool
  c_secure :: bool
  c_sameSite :: string
  c_expires :: int

definition make_cookie :: "int \<Rightarrow> string \<Rightarrow> string \<Rightarrow> cookie" where
  "make_cookie now name v =
     \<lparr>c_name = name, c_value = v, c_domain = ''.xiaohongshu.com'', c_path = ''/'',
      c_httpOnly = (name \<in> set [''web_session'', ''a1'', ''websectiga'']),
      c_secure = True, c_sameSite = ''Lax'', c_expires = now + 24 * 60 * 60\<rparr>"

text \<open>
  The loop over \<^verbatim>\<open>cookie_pairs\<close>, with \<^verbatim>\<open>valid_cookies\<close> as the accumulator:
  \<^verbatim>\<open>
    for pair in cookie_pairs:
        if '=' not in pair:
            continue
        name, value = pair.split('=', 1)
        name = name.strip()
        value = value.strip()
        ...
        valid_cookies.append(cookie)
  \<close>
  \<^verbatim>\<open>pair.split('=', 1)\<close> cuts at the first \<^verbatim>\<open>=\<close>. The clock is read once for every cookie
  built: \<open>clock k\<close> is the reading taken when \<open>k\<close> cookies have been built.
\<close>

fun parse_pairs :: "(nat \<Rightarrow> int) \<Rightarrow> string list \<Rightarrow> cookie list \<Rightarrow> cookie list" where
  "parse_pairs clock [] valid_cookies = valid_cookies"
| "parse_pairs clock (pair # rest) valid_cookies =
     (if CHR ''='' \<notin> set pair then parse_pairs clock rest valid_cookies
      else parse_pairs clock rest
             (valid_cookies @
              [make_cookie (clock (length valid_cookies))
                 (py_strip (takeWhile (\<lambda>c. c \<noteq> CHR ''='') pair))
                 (py_strip (tl (dropWhile (\<lambda>c. c \<noteq> CHR ''='') pair)))]))"

text \<open>
  \<^verbatim>\<open>
    if not cookie_string:
        return None
    cookie_pairs = [pair.strip() for pair in cookie_string.split(';') if pair.strip()]
  \<close>
\<close>

definition parse_cookie_string :: "(nat \<Rightarrow> int) \<Rightarrow> string \<Rightarrow> cookie list option" where
  "parse_cookie_string clock cookie_string =
     (if cookie_string = [] then None
      else Some (parse_pairs clock
                   (filter (\<lambda>pair. pair \<noteq> []) (map py_strip (py_split CHR '';'' cookie_string)))
                   []))"

text \<open>
  A well-formed cookie string, for the statement about the parser: the pairs
  \<open>name=value\<close> joined by semicolons, where a name holds neither \<^verbatim>\<open>;\<close> nor \<^verbatim>\<open>=\<close> and a
  value holds no \<^verbatim>\<open>;\<close> and neither starts nor ends with white space.
\<close>

definition pair_text :: "string \<times> string \<Rightarrow> string" where
  "pair_text p = fst p @ CHR ''='' # snd p"

definition cookie_string_of :: "(string \<times> string) list \<Rightarrow> string" where
  "cookie_string_of ps = py_join CHR '';'' (map pair_text ps)"

definition trimmed :: "string \<Rightarrow> bool" where
  "trimmed s \<longleftrightarrow> s = [] \<or> (\<not> py_space (hd s) \<and> \<not> py_space (last s))"

definition well_formed_pair :: "string \<times> string \<Rightarrow> bool" where
  "well_formed_pair p \<longleftrightarrow>
     CHR '';'' \<notin> set (fst p) \<and> CHR ''='' \<notin> set (fst p) \<and> CHR '';'' \<notin> set (snd p) \<and>
     trimmed (snd p)"

section \<open>Session preparation from a cookie file\<close>

text \<open>
  What \<^verbatim>\<open>json.load\<close> returns: \<^verbatim>\<open>None\<close>, a \<^verbatim>\<open>bool\<close>, a number (the integers are modelled),
  a \<^verbatim>\<open>str\<close>, a \<^verbatim>\<open>list\<close> or a \<^verbatim>\<open>dict\<close>. A \<^verbatim>\<open>dict\<close> is the list of its items in insertion
  order; its keys are distinct.
\<close>

datatype json =
    JNull
  | JBool bool
  | JNum int
  | JStr string
  | JArr "json list"
  | JObj "(string \<times> json) list"

text \<open>\<^verbatim>\<open>not x\<close> is the negation of this.\<close>

fun truthy :: "json \<Rightarrow> bool" where
  "truthy JNull = False"
| "truthy (JBool b) = b"
| "truthy (JNum n) = (n \<noteq> 0)"
| "truthy (JStr s) = (s \<noteq> [])"
| "truthy (JArr xs) = (xs \<noteq> [])"
| "truthy (JObj kvs) = (kvs \<noteq> [])"

text \<open>\<^verbatim>\<open>sub in s\<close> for two strings.\<close>

fun py_in :: "string \<Rightarrow> string \<Rightarrow> bool" where
  "py_in sub [] = (sub = [])"
| "py_in sub (c # s) = (prefix sub (c # s) \<or> py_in sub s)"

text \<open>
  \<^verbatim>\<open>key in x\<close> for a string \<^verbatim>\<open>key\<close>: a key of a \<^verbatim>\<open>dict\<close>, an element of a \<^verbatim>\<open>list\<close>, a
  substring of a \<^verbatim>\<open>str\<close>; on the other values it raises \<^verbatim>\<open>TypeError\<close> (\<open>None\<close>).
\<close>

fun py_contains :: "string \<Rightarrow> json \<Rightarrow> bool option" where
  "py_contains key (JObj kvs) = Some (key \<in> fst ` set kvs)"
| "py_contains key (JArr xs) = Some (JStr key \<in> set xs)"
| "py_contains key (JStr s) = Some (py_in key s)"
| "py_contains key JNull = None"
| "py_contains key (JBool b) = None"
| "py_contains key (JNum n) = None"

text \<open>
  \<^verbatim>\<open>for cookie in cookies\<close>: the elements of a \<^verbatim>\<open>list\<close>, the keys of a \<^verbatim>\<open>dict\<close>, the
  characters of a \<^verbatim>\<open>str\<close>; the other values are not iterable (\<open>None\<close>).
\<close>

fun py_iter :: "json \<Rightarrow> json list option" where
  "py_iter (JArr xs) = Some xs"
| "py_iter (JObj kvs) = Some (map (\<lambda>kv. JStr (fst kv)) kvs)"
| "py_iter (JStr s) = Some (map (\<lambda>c. JStr [c]) s)"
| "py_iter JNull = None"
| "py_iter (JBool b) = None"
| "py_iter (JNum n) = None"

text \<open>
  The search of the last branch of the format detection:
  \<^verbatim>\<open>
    for key, value in data.items():
        if isinstance(value, list) and len(value) > 0 and "name" in value[0]:
            cookies = value
            break
  \<close>
  The outer \<open>None\<close> is an exception; \<open>Some None\<close> leaves \<^verbatim>\<open>cookies\<close> at \<^verbatim>\<open>None\<close>.
\<close>

fun first_cookie_list :: "(string \<times> json) list \<Rightarrow> json option option" where
  "first_cookie_list [] = Some None"
| "first_cookie_list ((key, JArr (first # others)) # rest) =
     (case py_contains ''name'' first of
        None \<Rightarrow> None
      | Some True \<Rightarrow> Some (Some (JArr (first # others)))
      | Some False \<Rightarrow> first_cookie_list rest)"
| "first_cookie_list ((key, other) # rest) = first_cookie_list rest"

text \<open>
  \<^verbatim>\<open>
    cookies = None
    if isinstance(data, list):
        cookies = data
    elif isinstance(data, dict):
        if "cookies" in data:
            cookies = data["cookies"]
        elif "value" in data or "name" in data:
            cookies = [data]
        else:
            ... the search above ...
  \<close>
\<close>

fun locate_cookies :: "json \<Rightarrow> json option option" where
  "locate_cookies (JArr xs) = Some (Some (JArr xs))"
| "locate_cookies (JObj kvs) =
     (case map_of kvs ''cookies'' of
        Some cookies \<Rightarrow> Some (Some cookies)
      | None \<Rightarrow>
          if ''value'' \<in> fst ` set kvs \<or> ''name'' \<in> fst ` set kvs
          then Some (Some (JArr [JObj kvs]))
          else first_cookie_list kvs)"
| "locate_cookies other = Some None"

text \<open>
  \<^verbatim>\<open>isinstance(cookie, dict) and "name" in cookie and "value" in cookie\<close>, the test of the
  validation loop.
\<close>

fun is_cookie :: "json \<Rightarrow> bool" where
  "is_cookie (JObj kvs) \<longleftrightarrow> ''name'' \<in> fst ` set kvs \<and> ''value'' \<in> fst ` set kvs"
| "is_cookie other \<longleftrightarrow> False"

text \<open>\<^verbatim>\<open>if key not in cookie: cookie[key] = v\<close>: a new key goes to the end.\<close>

definition set_default :: "string \<Rightarrow> json \<Rightarrow> (string \<times> json) list \<Rightarrow> (string \<times> json) list" where
  "set_default key v kvs = (if key \<in> fst ` set kvs then kvs else kvs @ [(key, v)])"

text \<open>The body of the validation loop of xhs/code/xhs_comments_scraper.py.\<close>

fun with_defaults :: "json \<Rightarrow> json" where
  "with_defaults (JObj kvs) =
     JObj (set_default ''path'' (JStr ''/'')
            (set_default ''domain'' (JStr ''.xiaohongshu.com'') kvs))"
| "with_defaults other = other"

text \<open>
  The body of the validation loop of xhs/code/cookie_extractor.py, which goes on with
  \<^verbatim>\<open>
    if "expires" not in cookie and "maxAge" not in cookie:
        expires_timestamp = int(time.time()) + (24 * 60 * 60)
        cookie["expires"] = expires_timestamp
  \<close>
\<close>

fun with_defaults_ce :: "int \<Rightarrow> json \<Rightarrow> json" where
  "with_defaults_ce now (JObj kvs) =
     (let kvs' = set_default ''path'' (JStr ''/'')
                   (set_default ''domain'' (JStr ''.xiaohongshu.com'') kvs)
      in if ''expires'' \<notin> fst ` set kvs' \<and> ''maxAge'' \<notin> fst ` set kvs'
         then JObj (kvs' @ [(''expires'', JNum (now + 24 * 60 * 60))])
         else JObj kvs')"
| "with_defaults_ce now other = other"

text \<open>
  The validation loops, with \<^verbatim>\<open>valid_cookies\<close> as the accumulator. In the second,
  \<open>clock k\<close> is the time at which the cookie that follows \<open>k\<close> valid ones is completed.
\<close>

fun collect_valid :: "json list \<Rightarrow> json list \<Rightarrow> json list" where
  "collect_valid [] valid_cookies = valid_cookies"
| "collect_valid (cookie # rest) valid_cookies =
     (if is_cookie cookie then collect_valid rest (valid_cookies @ [with_defaults cookie])
      else collect_valid rest valid_cookies)"

fun collect_valid_ce :: "(nat \<Rightarrow> int) \<Rightarrow> json list \<Rightarrow> json list \<Rightarrow> json list" where
  "collect_valid_ce clock [] valid_cookies = valid_cookies"
| "collect_valid_ce clock (cookie # rest) valid_cookies =
     (if is_cookie cookie
      then collect_valid_ce clock rest
             (valid_cookies @ [with_defaults_ce (clock (length valid_cookies)) cookie])
      else collect_valid_ce clock rest valid_cookies)"

text \<open>
  The loop that logs the important cookies evaluates, for a cookie whose name is one of
  four strings,
  \<^verbatim>\<open>cookie['value'][:20] + "..." if len(cookie['value']) > 20 else cookie['value']\<close>.
  This raises when the value has no length, and when it is a list or a dictionary of more
  than 20 entries.
\<close>

definition important_names :: "string list" where
  "important_names = [''web_session'', ''a1'', ''webId'', ''xsecappid'']"

fun previewable :: "json \<Rightarrow> bool" where
  "previewable (JStr s) = True"
| "previewable (JArr xs) = (length xs \<le> 20)"
| "previewable (JObj kvs) = (length kvs \<le> 20)"
| "previewable other = False"

fun preview_ok :: "json \<Rightarrow> bool" where
  "preview_ok (JObj kvs) =
     (case map_of kvs ''name'' of
        Some (JStr name) \<Rightarrow>
          if name \<in> set important_names
          then (case map_of kvs ''value'' of Some v \<Rightarrow> previewable v | None \<Rightarrow> False)
          else True
      | _ \<Rightarrow> True)"
| "preview_ok other = True"

text \<open>
  What stands between \<^verbatim>\<open>data = json.load(f)\<close> and \<^verbatim>\<open>return valid_cookies\<close>, inside
  \<^verbatim>\<open>try ... except Exception\<close>, whose handler returns \<^verbatim>\<open>None\<close> as \<^verbatim>\<open>if not cookies\<close> does.
  \<open>collect\<close> is the validation loop of the file at hand.
\<close>

definition cookies_of_data :: "(json list \<Rightarrow> json list \<Rightarrow> json list) \<Rightarrow> json \<Rightarrow> json list option" where
  "cookies_of_data collect data =
     (case locate_cookies data of
        None \<Rightarrow> None
      | Some None \<Rightarrow> None
      | Some (Some cookies) \<Rightarrow>
          if \<not> truthy cookies then None
          else (case py_iter cookies of
                  None \<Rightarrow> None
                | Some items \<Rightarrow>
                    if list_all preview_ok (collect items []) then Some (collect items [])
                    else None))"

text \<open>
  The file behind \<^verbatim>\<open>cookie_path\<close>: no path was given, the path does not exist, opening
  or parsing raises, or the file holds a JSON value.
\<close>

datatype cookie_file = No_path | Missing | Unreadable | Holds json

text \<open>\<^verbatim>\<open>load_cookies\<close> of xhs/code/xhs_comments_scraper.py.\<close>

fun load_cookies :: "cookie_file \<Rightarrow> json list option" where
  "load_cookies (Holds data) = cookies_of_data collect_valid data"
| "load_cookies other = None"

text \<open>
  \<^verbatim>\<open>load_cookies\<close> of xhs/code/cookie_extractor.py, which takes a cookie string as well
  and prefers it when it is not empty.
\<close>

datatype loaded = From_string "cookie list" | From_file "json list"

fun load_cookies_ce :: "(nat \<Rightarrow> int) \<Rightarrow> cookie_file \<Rightarrow> string option \<Rightarrow> loaded option" where
  "load_cookies_ce clock file (Some (c # cs)) =
     map_option From_string (parse_cookie_string clock (c # cs))"
| "load_cookies_ce clock (Holds data) no_string =
     map_option From_file (cookies_of_data (collect_valid_ce clock) data)"
| "load_cookies_ce clock other no_string = None"

section \<open>The image URL converter\<close>

text \<open>
  \<^verbatim>\<open>convert_url\<close> and its helpers are the same in xhs/xhs_img_deal.py and
  xhs/xhs_img_coze_workflow.py. \<^verbatim>\<open>urlsplit\<close>, \<^verbatim>\<open>urlunsplit\<close> and \<^verbatim>\<open>quote\<close> belong to
  Python's \<^verbatim>\<open>urllib.parse\<close>; \<^verbatim>\<open>convert_url\<close> takes them as arguments, and the functions
  of the library follow it. \<^verbatim>\<open>urlsplit\<close> returns the five components of a URL or raises
  \<^verbatim>\<open>ValueError\<close>, and \<^verbatim>\<open>urlunsplit\<close> is given five components.
\<close>

datatype py_error = ValueError

record split_result =
  scheme :: string
  netloc :: string
  path :: string
  query :: string
  fragment :: string

text \<open>
  \<^verbatim>\<open>str.lower()\<close> on the code points below 256: the letters A to Z, and the Latin-1
  capitals 0xC0 to 0xDE without the multiplication sign 0xD7, move up by 32.
\<close>

definition py_lower_char :: "char \<Rightarrow> char" where
  "py_lower_char c =
     (let n = (of_char c :: nat)
      in if (65 \<le> n \<and> n \<le> 90) \<or> (192 \<le> n \<and> n \<le> 222 \<and> n \<noteq> 215) then char_of (n + 32)
         else c)"

definition py_lower :: "string \<Rightarrow> string" where
  "py_lower s = map py_lower_char s"

text \<open>
  \<^verbatim>\<open>
    def _normalize_fmt(fmt):
        fmt = fmt.lower().strip()
        if fmt == 'jpeg':
            return 'jpg'
        if fmt not in ('jpg', 'png'):
            raise ValueError(...)
        return fmt
  \<close>
\<close>

definition normalize_fmt :: "string \<Rightarrow> py_error + string" where
  "normalize_fmt fmt =
     (let f = py_strip (py_lower fmt)
      in if f = ''jpeg'' then Inr ''jpg''
         else if f \<notin> set [''jpg'', ''png''] then Inl ValueError
         else Inr f)"

text \<open>
  \<^verbatim>\<open>
    def _derive_basename_from_path(path):
        last = path.rsplit('/', 1)[-1]
        if '!' in last:
            return last.split('!', 1)[0]
        return last
  \<close>
\<close>

definition derive_basename_from_path :: "string \<Rightarrow> string" where
  "derive_basename_from_path p =
     (let last_part = rev (takeWhile (\<lambda>c. c \<noteq> CHR ''/'') (rev p))
      in if CHR ''!'' \<in> set last_part then takeWhile (\<lambda>c. c \<noteq> CHR ''!'') last_part
         else last_part)"

text \<open>\<^verbatim>\<open>[p for p in query.split('&') if p] if query else []\<close>\<close>

definition query_parts :: "string \<Rightarrow> string list" where
  "query_parts q = (if q = [] then [] else filter (\<lambda>p. p \<noteq> []) (py_split CHR ''&'' q))"

text \<open>
  The first part that satisfies \<open>P\<close> is replaced by its image under \<open>f\<close>; \<open>None\<close> when no
  part satisfies \<open>P\<close>.
\<close>

fun rewrite_first :: "(string \<Rightarrow> bool) \<Rightarrow> (string \<Rightarrow> string) \<Rightarrow> string list \<Rightarrow> string list option" where
  "rewrite_first P f [] = None"
| "rewrite_first P f (p # ps) =
     (if P p then Some (f p # ps) else map_option ((#) p) (rewrite_first P f ps))"

text \<open>
  \<^verbatim>\<open>re.sub(r'/format/[^/&?]*', f'/format/{fmt}', seg, count=1)\<close>: the leftmost
  \<^verbatim>\<open>/format/\<close> together with the longest run after it of characters other than \<^verbatim>\<open>/\<close>,
  \<^verbatim>\<open>&\<close> and \<^verbatim>\<open>?\<close> is replaced.
\<close>

fun sub_format :: "string \<Rightarrow> string \<Rightarrow> string" where
  "sub_format fmt [] = []"
| "sub_format fmt (c # cs) =
     (if prefix ''/format/'' (c # cs)
      then ''/format/'' @ fmt @
           dropWhile (\<lambda>x. x \<notin> set ''/&?'') (drop (length ''/format/'') (c # cs))
      else c # sub_format fmt cs)"

text \<open>
  \<^verbatim>\<open>
    seg = parts[idx]
    if '/format/' in seg:
        seg = re.sub(...)
    else:
        seg = seg.rstrip('/') + f'/format/{fmt}'
  \<close>
\<close>

definition format_segment :: "string \<Rightarrow> string \<Rightarrow> string" where
  "format_segment fmt seg =
     (if py_in ''/format/'' seg then sub_format fmt seg
      else rev (dropWhile (\<lambda>c. c = CHR ''/'') (rev seg)) @ ''/format/'' @ fmt)"

definition set_format_in_query :: "string \<Rightarrow> string \<Rightarrow> string" where
  "set_format_in_query q fmt =
     py_join CHR ''&''
       (case rewrite_first (prefix ''imageMogr2'') (format_segment fmt) (query_parts q) of
          None \<Rightarrow> query_parts q @ [''imageMogr2/format/'' @ fmt]
        | Some parts \<Rightarrow> parts)"

definition set_attname_in_query :: "(string \<Rightarrow> string) \<Rightarrow> string \<Rightarrow> string \<Rightarrow> string" where
  "set_attname_in_query quote q filename =
     py_join CHR ''&''
       (case rewrite_first (prefix ''attname='') (\<lambda>p. ''attname='' @ quote filename)
               (query_parts q) of
          None \<Rightarrow> query_parts q @ [''attname='' @ quote filename]
        | Some parts \<Rightarrow> parts)"

text \<open>
  \<^verbatim>\<open>
    def convert_url(url, fmt, filename=None):
        fmt = _normalize_fmt(fmt)
        sp = urlsplit(url)
        base = _derive_basename_from_path(sp.path)
        expect_name = f"{base}.{fmt}" if not filename else filename
        q1 = _set_format_in_query(sp.query, fmt)
        q2 = _set_attname_in_query(q1, expect_name)
        return urlunsplit((sp.scheme, sp.netloc, sp.path, q2, sp.fragment))
  \<close>
\<close>

definition convert_url ::
  "(string \<Rightarrow> py_error + split_result) \<Rightarrow> (split_result \<Rightarrow> string) \<Rightarrow> (string \<Rightarrow> string) \<Rightarrow>
   string \<Rightarrow> string \<Rightarrow> string option \<Rightarrow> py_error + string" where
  "convert_url urlsplit urlunsplit quote url fmt filename =
     (case normalize_fmt fmt of
        Inl e \<Rightarrow> Inl e
      | Inr f \<Rightarrow>
          (case urlsplit url of
             Inl e \<Rightarrow> Inl e
           | Inr sp \<Rightarrow>
               (let base = derive_basename_from_path (path sp);
                    expect_name = (case filename of
                                     None \<Rightarrow> base @ ''.'' @ f
                                   | Some name \<Rightarrow> if name = [] then base @ ''.'' @ f else name);
                    q1 = set_format_in_query (query sp) f;
                    q2 = set_attname_in_query quote q1 expect_name
                in Inr (urlunsplit \<lparr>scheme = scheme sp, netloc = netloc sp, path = path sp,
                                    query = q2, fragment = fragment sp\<rparr>))))"

subsection \<open>The functions of \<^verbatim>\<open>urllib.parse\<close>\<close>

text \<open>
  \<^verbatim>\<open>urlsplit\<close>, \<^verbatim>\<open>urlunsplit\<close> and \<^verbatim>\<open>quote\<close> as Lib/urllib/parse.py of CPython 3.11.10
  and 3.12.3 defines them, on strings of code points below 256 and with the default
  arguments \<^verbatim>\<open>scheme=''\<close> and \<^verbatim>\<open>allow_fragments=True\<close> that \<^verbatim>\<open>convert_url\<close> leaves in
  place. The two versions differ in \<^verbatim>\<open>urlunsplit\<close>, which has a definition for each.
\<close>

text \<open>
  \<^verbatim>\<open>_WHATWG_C0_CONTROL_OR_SPACE\<close>, the code points 0 to 0x20, and
  \<^verbatim>\<open>_UNSAFE_URL_BYTES_TO_REMOVE = ['\t', '\r', '\n']\<close>.
\<close>

definition c0_control_or_space :: "char \<Rightarrow> bool" where
  "c0_control_or_space c \<longleftrightarrow> (of_char c :: nat) \<le> 32"

definition unsafe_url_byte :: "char \<Rightarrow> bool" where
  "unsafe_url_byte c \<longleftrightarrow> (of_char c :: nat) = 9 \<or> (of_char c :: nat) = 13 \<or> (of_char c :: nat) = 10"

definition scheme_chars :: string where
  "scheme_chars = ''abcdefghijklmnopqrstuvwxyzABCDEFGHIJKLMNOPQRSTUVWXYZ0123456789+-.''"

text \<open>\<^verbatim>\<open>c.isascii() and c.isalpha()\<close>: a letter A to Z or a to z.\<close>

definition ascii_alpha :: "char \<Rightarrow> bool" where
  "ascii_alpha c \<longleftrightarrow>
     (65 \<le> (of_char c :: nat) \<and> (of_char c :: nat) \<le> 90) \<or>
     (97 \<le> (of_char c :: nat) \<and> (of_char c :: nat) \<le> 122)"

text \<open>
  \<^verbatim>\<open>
    i = url.find(':')
    if i > 0 and url[0].isascii() and url[0].isalpha():
        for c in url[:i]:
            if c not in scheme_chars:
                break
        else:
            scheme, url = url[:i].lower(), url[i+1:]
  \<close>
  The result is the scheme and the rest of the URL.
\<close>

definition split_scheme :: "string \<Rightarrow> string \<times> string" where
  "split_scheme url =
     (let front = takeWhile (\<lambda>c. c \<noteq> CHR '':'') url
      in if CHR '':'' \<in> set url \<and> front \<noteq> [] \<and> ascii_alpha (hd url) \<and>
            list_all (\<lambda>c. c \<in> set scheme_chars) front
         then (py_lower front, tl (dropWhile (\<lambda>c. c \<noteq> CHR '':'') url))
         else ([], url))"

text \<open>
  \<^verbatim>\<open>_splitnetloc(url, 2)\<close>, called on a URL that begins with \<^verbatim>\<open>//\<close>: the network location
  runs from index 2 to the first \<^verbatim>\<open>/\<close>, \<^verbatim>\<open>?\<close> or \<^verbatim>\<open>#\<close> after it, or to the end.
\<close>

definition splitnetloc :: "string \<Rightarrow> string \<times> string" where
  "splitnetloc url =
     (takeWhile (\<lambda>c. c \<notin> set ''/?#'') (drop 2 url),
      dropWhile (\<lambda>c. c \<notin> set ''/?#'') (drop 2 url))"

text \<open>\<^verbatim>\<open>if sep in url: url, x = url.split(sep, 1)\<close>, with \<open>x\<close> empty before.\<close>

definition split_once :: "char \<Rightarrow> string \<Rightarrow> string \<times> string" where
  "split_once sep url =
     (if sep \<in> set url
      then (takeWhile (\<lambda>c. c \<noteq> sep) url, tl (dropWhile (\<lambda>c. c \<noteq> sep) url))
      else (url, []))"

text \<open>
  The network location makes \<^verbatim>\<open>urlsplit\<close> raise \<^verbatim>\<open>ValueError\<close> in three ways:
  it holds one of the two square brackets without the other; it holds both and
  \<^verbatim>\<open>_check_bracketed_host\<close> refuses what is between them; it is not ASCII and
  \<^verbatim>\<open>_checknetloc\<close> refuses its NFKC form. The last two checks rest on the modules
  \<^verbatim>\<open>ipaddress\<close>, \<^verbatim>\<open>re\<close> and \<^verbatim>\<open>unicodedata\<close>; their verdict on a network location is the
  parameter \<open>netloc_check\<close>, true when neither raises.
\<close>

definition netloc_raises :: "(string \<Rightarrow> bool) \<Rightarrow> string \<Rightarrow> bool" where
  "netloc_raises netloc_check nl \<longleftrightarrow>
     (CHR ''['' \<in> set nl \<and> CHR '']'' \<notin> set nl) \<or>
     (CHR '']'' \<in> set nl \<and> CHR ''['' \<notin> set nl) \<or>
     ((CHR ''['' \<in> set nl \<and> CHR '']'' \<in> set nl \<or>
       nl \<noteq> [] \<and> \<not> list_all (\<lambda>c. (of_char c :: nat) < 128) nl) \<and>
      \<not> netloc_check nl)"

text \<open>
  \<^verbatim>\<open>
    url = url.lstrip(_WHATWG_C0_CONTROL_OR_SPACE)
    for b in _UNSAFE_URL_BYTES_TO_REMOVE:
        url = url.replace(b, "")
    netloc = query = fragment = ''
    (the scheme)
    if url[:2] == '//':
        netloc, url = _splitnetloc(url, 2)
        (the bracket checks)
    if allow_fragments and '#' in url:
        url, fragment = url.split('#', 1)
    if '?' in url:
        url, query = url.split('?', 1)
    _checknetloc(netloc)
    v = SplitResult(scheme, netloc, url, query, fragment)
  \<close>
\<close>

definition urllib_urlsplit :: "(string \<Rightarrow> bool) \<Rightarrow> string \<Rightarrow> py_error + split_result" where
  "urllib_urlsplit netloc_check url =
     (let url1 = filter (\<lambda>c. \<not> unsafe_url_byte c) (dropWhile c0_control_or_space url);
          (scheme_part, url2) = split_scheme url1;
          (netloc_part, url3) = (if take 2 url2 = ''//'' then splitnetloc url2 else ([], url2));
          (url4, fragment_part) = split_once CHR ''#'' url3;
          (url5, query_part) = split_once CHR ''?'' url4
      in if netloc_raises netloc_check netloc_part then Inl ValueError
         else Inr \<lparr>scheme = scheme_part, netloc = netloc_part, path = url5,
                   query = query_part, fragment = fragment_part\<rparr>)"

text \<open>
  \<^verbatim>\<open>
    if (the condition of the version):
        if url and url[:1] != '/': url = '/' + url
        url = '//' + (netloc or '') + url
    if scheme:
        url = scheme + ':' + url
    if query:
        url = url + '?' + query
    if fragment:
        url = url + '#' + fragment
  \<close>
  \<open>slashes\<close> is the outcome of the condition.
\<close>

definition unsplit_with :: "bool \<Rightarrow> split_result \<Rightarrow> string" where
  "unsplit_with slashes c =
     (let url1 = (if slashes
                  then ''//'' @ netloc c @
                       (if path c \<noteq> [] \<and> take 1 (path c) \<noteq> ''/'' then ''/'' @ path c
                        else path c)
                  else path c);
          url2 = (if scheme c \<noteq> [] then scheme c @ '':'' @ url1 else url1);
          url3 = (if query c \<noteq> [] then url2 @ ''?'' @ query c else url2)
      in if fragment c \<noteq> [] then url3 @ ''#'' @ fragment c else url3)"

text \<open>\<^verbatim>\<open>uses_netloc\<close> of 3.11.10; 3.12.3 has \<^verbatim>\<open>'itms-services'\<close> as well.\<close>

definition uses_netloc :: "string list" where
  "uses_netloc =
     ['''', ''ftp'', ''http'', ''gopher'', ''nntp'', ''telnet'', ''imap'', ''wais'', ''file'',
      ''mms'', ''https'', ''shttp'', ''snews'', ''prospero'', ''rtsp'', ''rtsps'', ''rtspu'',
      ''rsync'', ''svn'', ''svn+ssh'', ''sftp'', ''nfs'', ''git'', ''git+ssh'', ''ws'', ''wss'']"

text \<open>
  3.11.10:
  \<^verbatim>\<open>if netloc or (scheme and scheme in uses_netloc) or url[:2] == '//':\<close>
\<close>

definition urlunsplit_3_11 :: "split_result \<Rightarrow> string" where
  "urlunsplit_3_11 c =
     unsplit_with
       (netloc c \<noteq> [] \<or> (scheme c \<noteq> [] \<and> scheme c \<in> set uses_netloc) \<or>
        take 2 (path c) = ''//'') c"

text \<open>
  3.12.3:
  \<^verbatim>\<open>if netloc or (scheme and scheme in uses_netloc and url[:2] != '//'):\<close>
\<close>

definition urlunsplit_3_12 :: "split_result \<Rightarrow> string" where
  "urlunsplit_3_12 c =
     unsplit_with
       (netloc c \<noteq> [] \<or>
        (scheme c \<noteq> [] \<and> scheme c \<in> set (uses_netloc @ [''itms-services'']) \<and>
         take 2 (path c) \<noteq> ''//'')) c"

text \<open>
  \<^verbatim>\<open>quote(string, safe='')\<close>: the string is encoded in UTF-8, one byte for a code point
  below 128 and two for the others below 256; a byte of \<^verbatim>\<open>_ALWAYS_SAFE\<close> stands for
  itself and any other byte \<open>b\<close> becomes \<^verbatim>\<open>'%{:02X}'.format(b)\<close>.
\<close>

definition always_safe :: string where
  "always_safe = ''ABCDEFGHIJKLMNOPQRSTUVWXYZabcdefghijklmnopqrstuvwxyz0123456789_.-~''"

definition utf8 :: "char \<Rightarrow> nat list" where
  "utf8 c =
     (let n = (of_char c :: nat)
      in if n < 128 then [n] else [192 + n div 64, 128 + n mod 64])"

definition hex_digits :: string where
  "hex_digits = ''0123456789ABCDEF''"

definition hex_digit :: "nat \<Rightarrow> char" where
  "hex_digit d = hex_digits ! d"

definition quote_byte :: "nat \<Rightarrow> string" where
  "quote_byte b =
     (if b < 128 \<and> char_of b \<in> set always_safe then [char_of b]
      else [CHR ''%'', hex_digit (b div 16), hex_digit (b mod 16)])"

definition urllib_quote :: "string \<Rightarrow> string" where
  "urllib_quote s = concat (map quote_byte (concat (map utf8 s)))"

text \<open>The URL of the demonstration in the source, shortened in its path.\<close>

definition demo_url :: string where
  "demo_url = ''https://sns-webpic-qc.xhscdn.com/notes_pre_post/1040g3k0!nd_dft_wlteh_jpg_3''"

section \<open>Properties of the scroll convergence driver\<close>

lemma state_after_0: "state_after h 0 = scroll_init"
  by (simp add: state_after_def scroll_init_def prev_height_def)

lemma scroll_round_calm:
  "0 < thr \<Longrightarrow> scroll_round thr (calm_page h k) (state_after h k) =
     (if thr \<le> run_len h (Suc k) then Break (state_after h (Suc k))
      else Continue (state_after h (Suc k)))"
  by (auto simp: scroll_round_def calm_page_def state_after_def still_def prev_height_def Let_def)

lemma scroll_loop_skip:
  "0 < thr \<Longrightarrow> (\<forall>i. k \<le> i \<and> i < k + j \<longrightarrow> run_len h (Suc i) < thr) \<Longrightarrow>
   scroll_loop thr (calm_page h) k (j + left) (state_after h k) = 
   scroll_loop thr (calm_page h) (k + j) left (state_after h (k + j))"
proof (induction j arbitrary: k)
  case 0
  then show ?case by simp
next
  case (Suc j)
  have now: "run_len h (Suc k) < thr" using Suc.prems(2) by simp
  have later: "\<forall>i. Suc k \<le> i \<and> i < Suc k + j \<longrightarrow> run_len h (Suc i) < thr"
    using Suc.prems(2) by simp
  have "scroll_loop thr (calm_page h) k (Suc j + left) (state_after h k) =
        scroll_loop thr (calm_page h) (Suc k) (j + left) (state_after h (Suc k))"
    using now Suc.prems(1) by (simp add: scroll_round_calm)
  also have "\<dots> = scroll_loop thr (calm_page h) (Suc k + j) left (state_after h (Suc k + j))"
    using Suc.IH [OF Suc.prems(1) later] .
  finally show ?case by simp
qed


lemma scroll_loop_budget:
  assumes "0 < thr" "\<forall>i<n. run_len h (Suc i) < thr"
  shows "scroll_loop thr (calm_page h) 0 n scroll_init =
         \<lparr>exit_by = Budget_exhausted, rounds_run = n, final = state_after h n\<rparr>"
proof -
  have "scroll_loop thr (calm_page h) 0 (n + 0) (state_after h 0) =
        scroll_loop thr (calm_page h) (0 + n) 0 (state_after h (0 + n))"
    by (rule scroll_loop_skip) (use assms in auto)
  then show ?thesis by (simp add: state_after_0)
qed

lemma scroll_loop_stable:
  assumes "0 < thr" "j < n" "\<forall>i<j. run_len h (Suc i) < thr" "thr \<le> run_len h (Suc j)"
  shows "scroll_loop thr (calm_page h) 0 n scroll_init =
         \<lparr>exit_by = Stability_reached, rounds_run = Suc j, final = state_after h (Suc j)\<rparr>"
proof -
  define left where "left = n - Suc j"
  have n: "n = j + Suc left"
    using assms(2) by (simp add: left_def)
  have "scroll_loop thr (calm_page h) 0 (j + Suc left) (state_after h 0) =
        scroll_loop thr (calm_page h) (0 + j) (Suc left) (state_after h (0 + j))"
    by (rule scroll_loop_skip) (use assms in auto)
  then have "scroll_loop thr (calm_page h) 0 n scroll_init =
        scroll_loop thr (calm_page h) j (Suc left) (state_after h j)"
    unfolding n by (simp only: state_after_0 add_0)
  also have "\<dots> = \<lparr>exit_by = Stability_reached, rounds_run = Suc j, final = state_after h (Suc j)\<rparr>"
    using assms(1,4) by (simp add: scroll_round_calm)
  finally show ?thesis .
qed

lemma run_len_ge_3:
  "3 \<le> run_len h e \<longleftrightarrow> (\<exists>k. e = k + 3 \<and> still h k \<and> still h (k + 1) \<and> still h (k + 2))"
proof (cases e)
  case 0
  then show ?thesis by simp
next
  case e1: (Suc e1)
  show ?thesis
  proof (cases e1)
    case 0
    then show ?thesis using e1 by simp
  next
    case e2: (Suc e2)
    show ?thesis
    proof (cases e2)
      case 0
      then show ?thesis using e1 e2 by simp
    next
      case (Suc k)
      have "e = k + 3" using e1 e2 Suc by simp
      then show ?thesis by (auto simp: numeral_3_eq_3)
    qed
  qed
qed

lemma run_len_ge_2:
  "2 \<le> run_len h e \<longleftrightarrow> (\<exists>k. e = k + 2 \<and> still h k \<and> still h (k + 1))"
proof (cases e)
  case 0
  then show ?thesis by simp
next
  case e1: (Suc e1)
  show ?thesis
  proof (cases e1)
    case 0
    then show ?thesis using e1 by simp
  next
    case (Suc k)
    have "e = k + 2" using e1 Suc by simp
    then show ?thesis by (auto simp: numeral_2_eq_2)
  qed
qed

text \<open>The two ways the loop ends on a calm page.\<close>

lemma scroll_loop_calm_cases:
  fixes h :: "nat \<Rightarrow> int \<times> int" and n thr :: nat
  defines "r \<equiv> scroll_loop thr (calm_page h) 0 n scroll_init"
  assumes "0 < thr"
  shows "final r = state_after h (rounds_run r) \<and>
         (exit_by r = Budget_exhausted \<and> rounds_run r = n \<and> (\<forall>e\<le>n. run_len h e < thr) \<or>
          exit_by r = Stability_reached \<and> rounds_run r \<le> n \<and> thr \<le> run_len h (rounds_run r) \<and>
            (\<forall>e<rounds_run r. run_len h e < thr))"
proof (cases "\<exists>j<n. thr \<le> run_len h (Suc j)")
  case True
  define j where "j = (LEAST j. j < n \<and> thr \<le> run_len h (Suc j))"
  have j: "j < n \<and> thr \<le> run_len h (Suc j)"
    unfolding j_def using True by (rule LeastI_ex)
  have least: "\<forall>i<j. run_len h (Suc i) < thr"
  proof (intro allI impI)
    fix i assume "i < j"
    then have "\<not> (i < n \<and> thr \<le> run_len h (Suc i))"
      unfolding j_def by (rule not_less_Least)
    moreover have "i < n" using \<open>i < j\<close> j by simp
    ultimately show "run_len h (Suc i) < thr" by simp
  qed
  have r: "r = \<lparr>exit_by = Stability_reached, rounds_run = Suc j, final = state_after h (Suc j)\<rparr>"
    unfolding r_def using assms(2) j least by (intro scroll_loop_stable) simp_all
  have "\<forall>e<Suc j. run_len h e < thr"
  proof (intro allI impI)
    fix e assume e: "e < Suc j"
    show "run_len h e < thr"
    proof (cases e)
      case 0
      then show ?thesis using \<open>0 < thr\<close> by simp
    next
      case (Suc i)
      then show ?thesis using least e by simp
    qed
  qed
  then show ?thesis using j by (simp add: r)
next
  case False
  then have none: "\<forall>i<n. run_len h (Suc i) < thr" by (simp add: not_le)
  have r: "r = \<lparr>exit_by = Budget_exhausted, rounds_run = n, final = state_after h n\<rparr>"
    unfolding r_def using assms(2) none by (rule scroll_loop_budget)
  have "\<forall>e\<le>n. run_len h e < thr"
  proof (intro allI impI)
    fix e assume e: "e \<le> n"
    show "run_len h e < thr"
    proof (cases e)
      case 0
      then show ?thesis using \<open>0 < thr\<close> by simp
    next
      case (Suc i)
      then show ?thesis using none e by simp
    qed
  qed
  then show ?thesis by (simp add: r)
qed

lemma scroll_loop_stability_iff:
  assumes "0 < thr"
  shows "exit_by (scroll_loop thr (calm_page h) 0 n scroll_init) = Stability_reached \<longleftrightarrow>
         (\<exists>e\<le>n. thr \<le> run_len h e)"
proof -
  let ?r = "scroll_loop thr (calm_page h) 0 n scroll_init"
  have c: "exit_by ?r = Budget_exhausted \<and> rounds_run ?r = n \<and> (\<forall>e\<le>n. run_len h e < thr) \<or>
          exit_by ?r = Stability_reached \<and> rounds_run ?r \<le> n \<and> thr \<le> run_len h (rounds_run ?r) \<and>
            (\<forall>e<rounds_run ?r. run_len h e < thr)"
    using scroll_loop_calm_cases [OF assms, of h n] by simp
  show ?thesis
  proof
    assume "exit_by ?r = Stability_reached"
    then have "rounds_run ?r \<le> n \<and> thr \<le> run_len h (rounds_run ?r)" using c by auto
    then show "\<exists>e\<le>n. thr \<le> run_len h e" by blast
  next
    assume "\<exists>e\<le>n. thr \<le> run_len h e"
    then obtain e where "e \<le> n" "thr \<le> run_len h e" by blast
    then have "\<not> (\<forall>e\<le>n. run_len h e < thr)" by (auto simp: not_less)
    then show "exit_by ?r = Stability_reached" using c by blast
  qed
qed

lemma rounds_run_le: "rounds_run (scroll_loop thr page k left s) \<le> k + left"
proof (induction left arbitrary: k s)
  case 0
  then show ?case by simp
next
  case (Suc left)
  show ?case
  proof (cases "scroll_round thr (page k) s")
    case Raised
    then show ?thesis by simp
  next
    case (Break s')
    then show ?thesis by simp
  next
    case (Continue s')
    then show ?thesis using Suc.IH [of "Suc k" s'] by simp
  qed
qed

lemma growing_run_len:
  assumes "(\<forall>k. fst (h k) < snd (h k)) \<or> (\<forall>k. snd (h k) < snd (h (Suc k)))"
  shows "run_len h e \<le> 1"
proof (cases e)
  case 0
  then show ?thesis by simp
next
  case e1: (Suc e1)
  show ?thesis
  proof (cases e1)
    case 0
    then show ?thesis using e1 by simp
  next
    case (Suc k)
    have "fst (h (Suc k)) < snd (h (Suc k)) \<or> snd (h k) < snd (h (Suc k))"
      using assms by blast
    then have "\<not> still h (Suc k)"
      by (auto simp: still_def prev_height_def)
    then show ?thesis using e1 Suc by simp
  qed
qed

subsection \<open>The height sequence 100, 250, 250, 250\<close>

lemma nat_ge_3: "3 \<le> (m::int) \<Longrightarrow> \<exists>n. nat m = Suc (Suc (Suc n))"
  by (rule exI [of _ "nat m - 3"]) simp

lemma nat_ge_4: "4 \<le> (m::int) \<Longrightarrow> \<exists>n. nat m = Suc (Suc (Suc (Suc n)))"
  by (rule exI [of _ "nat m - 4"]) simp

lemma nat_ge_5: "5 \<le> (m::int) \<Longrightarrow> \<exists>n. nat m = Suc (Suc (Suc (Suc (Suc n))))"
  by (rule exI [of _ "nat m - 5"]) simp

lemma start_example:
  "start_heights [100, 250, 250, 250] 0 = (100, 250)"
  "start_heights [100, 250, 250, 250] (Suc k) = (250, 250)"
  by (auto simp: start_heights_def height_at_def nth_Cons split: nat.splits)

lemma end_example:
  "end_heights h0 [100, 250, 250, 250] 0 = (h0, 100)"
  "end_heights h0 [100, 250, 250, 250] (Suc 0) = (100, 250)"
  "end_heights h0 [100, 250, 250, 250] (Suc (Suc k)) = (250, 250)"
  by (auto simp: end_heights_def height_at_def nth_Cons split: nat.splits)

lemmas scroll_unfold =
  scroll_and_load_comments_def scroll_and_expand_def scroll_init_def scroll_round_def
  calm_page_def

text \<open>
  Claim C2, as amended. Take the simulated height sequence 100, 250, 250, 250, the page
  staying at 250 afterwards. When the heights are those the page has at the start of
  rounds 1 to 4, so that round 1 sees the growth from 100 to 250, the driver of the
  comments scraper stops by stability in round 4, after the three stable rounds 2, 3
  and 4, for every budget of at least 4 rounds: not earlier, and not on the budget. The
  driver of the image scraper, whose threshold is 2, then stops in round 3. When the
  heights are those the page has at the end of rounds 1 to 4, whatever its height
  \<open>h0\<close> before, round 2 is the round that sees the growth, and the two drivers stop in
  rounds 5 and 4.
\<close>

theorem scroll_100_250_250_250:
  "(4 \<le> m \<longrightarrow>
      scroll_and_load_comments (calm_page (start_heights [100, 250, 250, 250])) m =
        \<lparr>exit_by = Stability_reached, rounds_run = 4,
         final = \<lparr>last_height = 250, stable_rounds = 3\<rparr>\<rparr>) \<and>
   (3 \<le> m \<longrightarrow>
      scroll_and_expand (calm_page (start_heights [100, 250, 250, 250])) m =
        \<lparr>exit_by = Stability_reached, rounds_run = 3,
         final = \<lparr>last_height = 250, stable_rounds = 2\<rparr>\<rparr>) \<and>
   (5 \<le> m \<longrightarrow>
      scroll_and_load_comments (calm_page (end_heights h0 [100, 250, 250, 250])) m =
        \<lparr>exit_by = Stability_reached, rounds_run = 5,
         final = \<lparr>last_height = 250, stable_rounds = 3\<rparr>\<rparr>) \<and>
   (4 \<le> m \<longrightarrow>
      scroll_and_expand (calm_page (end_heights h0 [100, 250, 250, 250])) m =
        \<lparr>exit_by = Stability_reached, rounds_run = 4,
         final = \<lparr>last_height = 250, stable_rounds = 2\<rparr>\<rparr>)"
proof (intro conjI impI)
  assume "4 \<le> m"
  then obtain n where n: "nat m = Suc (Suc (Suc (Suc n)))"
    using nat_ge_4 by blast
  show "scroll_and_load_comments (calm_page (start_heights [100, 250, 250, 250])) m =
        \<lparr>exit_by = Stability_reached, rounds_run = 4,
         final = \<lparr>last_height = 250, stable_rounds = 3\<rparr>\<rparr>"
    by (simp add: scroll_unfold n start_example)
next
  assume "3 \<le> m"
  then obtain n where n: "nat m = Suc (Suc (Suc n))"
    using nat_ge_3 by blast
  show "scroll_and_expand (calm_page (start_heights [100, 250, 250, 250])) m =
        \<lparr>exit_by = Stability_reached, rounds_run = 3,
         final = \<lparr>last_height = 250, stable_rounds = 2\<rparr>\<rparr>"
    by (simp add: scroll_unfold n start_example)
next
  assume "5 \<le> m"
  then obtain n where n: "nat m = Suc (Suc (Suc (Suc (Suc n))))"
    using nat_ge_5 by blast
  show "scroll_and_load_comments (calm_page (end_heights h0 [100, 250, 250, 250])) m =
        \<lparr>exit_by = Stability_reached, rounds_run = 5,
         final = \<lparr>last_height = 250, stable_rounds = 3\<rparr>\<rparr>"
    by (simp add: scroll_unfold n end_example)
next
  assume "4 \<le> m"
  then obtain n where n: "nat m = Suc (Suc (Suc (Suc n)))"
    using nat_ge_4 by blast
  show "scroll_and_expand (calm_page (end_heights h0 [100, 250, 250, 250])) m =
        \<lparr>exit_by = Stability_reached, rounds_run = 4,
         final = \<lparr>last_height = 250, stable_rounds = 2\<rparr>\<rparr>"
    by (simp add: scroll_unfold n end_example)
qed

theorem scroll_100_250_250_250_witness:
  "scroll_and_load_comments (calm_page (start_heights [100, 250, 250, 250])) 30 =
     \<lparr>exit_by = Stability_reached, rounds_run = 4,
         final = \<lparr>last_height = 250, stable_rounds = 3\<rparr>\<rparr> \<and>
   scroll_and_expand (calm_page (start_heights [100, 250, 250, 250])) 20 =
     \<lparr>exit_by = Stability_reached, rounds_run = 3,
         final = \<lparr>last_height = 250, stable_rounds = 2\<rparr>\<rparr> \<and>
   scroll_and_load_comments (calm_page (end_heights 100 [100, 250, 250, 250])) 30 =
     \<lparr>exit_by = Stability_reached, rounds_run = 5,
         final = \<lparr>last_height = 250, stable_rounds = 3\<rparr>\<rparr> \<and>
   scroll_and_expand (calm_page (end_heights 100 [100, 250, 250, 250])) 20 =
     \<lparr>exit_by = Stability_reached, rounds_run = 4,
         final = \<lparr>last_height = 250, stable_rounds = 2\<rparr>\<rparr>"
  using scroll_100_250_250_250 [of 30 100] scroll_100_250_250_250 [of 20 100] by simp

text \<open>
  The claim as the specification states it, round 4 for the driver in both scrapers,
  fails under either reading of the sequence. With the heights taken at the start of the
  rounds the image scraper stops in round 3, after two stable rounds; with the heights
  taken at the end of the rounds the comments scraper stops in round 5.
\<close>

theorem scroll_100_250_250_250_not_round_4:
  "rounds_run (scroll_and_expand (calm_page (start_heights [100, 250, 250, 250])) 20) = 3 \<and>
   stable_rounds (final (scroll_and_expand (calm_page (start_heights [100, 250, 250, 250])) 20)) = 2 \<and>
   rounds_run (scroll_and_load_comments (calm_page (end_heights 100 [100, 250, 250, 250])) 30) = 5"
  by (simp add: scroll_unfold start_heights_def end_heights_def height_at_def eval_nat_numeral)

subsection \<open>When the driver stops by stability\<close>

lemma scroll_round_step:
  "scroll_round thr (calm_page h k) s =
     (if snd (h k) = fst (h k) \<and> fst (h k) = last_height s
      then (if thr \<le> stable_rounds s + 1 then Break else Continue)
             (s\<lparr>stable_rounds := stable_rounds s + 1\<rparr>)
      else Continue \<lparr>last_height = snd (h k), stable_rounds = 0\<rparr>)"
  by (simp add: scroll_round_def calm_page_def Let_def)

text \<open>
  Claim C3, as amended. On a page where no call raises, the driver of the comments
  scraper stops by stability exactly when its budget holds three consecutive still
  rounds (rounds whose height after the round equals the height before it and the
  height left by the round before), and the driver of the image scraper exactly when
  its budget holds two. On exit the counter is \<open>run_len\<close> of the rounds run and
  \<^verbatim>\<open>last_height\<close> the height left by the last of them. In a single round the counter
  grows by one when the three heights agree and goes back to 0 otherwise.
\<close>

theorem scroll_stability_characterised:
  "(exit_by (scroll_and_load_comments (calm_page h) m) = Stability_reached \<longleftrightarrow>
      (\<exists>k. k + 3 \<le> nat m \<and> still h k \<and> still h (k + 1) \<and> still h (k + 2))) \<and>
   (exit_by (scroll_and_expand (calm_page h) m) = Stability_reached \<longleftrightarrow>
      (\<exists>k. k + 2 \<le> nat m \<and> still h k \<and> still h (k + 1))) \<and>
   final (scroll_and_load_comments (calm_page h) m) =
      state_after h (rounds_run (scroll_and_load_comments (calm_page h) m)) \<and>
   final (scroll_and_expand (calm_page h) m) =
      state_after h (rounds_run (scroll_and_expand (calm_page h) m)) \<and>
   scroll_round thr (calm_page h k) s =
     (if snd (h k) = fst (h k) \<and> fst (h k) = last_height s
      then (if thr \<le> stable_rounds s + 1 then Break else Continue)
             (s\<lparr>stable_rounds := stable_rounds s + 1\<rparr>)
      else Continue \<lparr>last_height = snd (h k), stable_rounds = 0\<rparr>)"
proof (intro conjI)
  have "exit_by (scroll_and_load_comments (calm_page h) m) = Stability_reached \<longleftrightarrow>
        (\<exists>e\<le>nat m. 3 \<le> run_len h e)"
    unfolding scroll_and_load_comments_def by (rule scroll_loop_stability_iff) simp
  also have "\<dots> \<longleftrightarrow> (\<exists>k. k + 3 \<le> nat m \<and> still h k \<and> still h (k + 1) \<and> still h (k + 2))"
    unfolding run_len_ge_3 by blast
  finally show "exit_by (scroll_and_load_comments (calm_page h) m) = Stability_reached \<longleftrightarrow>
      (\<exists>k. k + 3 \<le> nat m \<and> still h k \<and> still h (k + 1) \<and> still h (k + 2))" .
  have "exit_by (scroll_and_expand (calm_page h) m) = Stability_reached \<longleftrightarrow>
        (\<exists>e\<le>nat m. 2 \<le> run_len h e)"
    unfolding scroll_and_expand_def by (rule scroll_loop_stability_iff) simp
  also have "\<dots> \<longleftrightarrow> (\<exists>k. k + 2 \<le> nat m \<and> still h k \<and> still h (k + 1))"
    unfolding run_len_ge_2 by blast
  finally show "exit_by (scroll_and_expand (calm_page h) m) = Stability_reached \<longleftrightarrow>
      (\<exists>k. k + 2 \<le> nat m \<and> still h k \<and> still h (k + 1))" .
  show "final (scroll_and_load_comments (calm_page h) m) =
      state_after h (rounds_run (scroll_and_load_comments (calm_page h) m))"
    unfolding scroll_and_load_comments_def
    using scroll_loop_calm_cases [of 3 h "nat m"] by simp
  show "final (scroll_and_expand (calm_page h) m) =
      state_after h (rounds_run (scroll_and_expand (calm_page h) m))"
    unfolding scroll_and_expand_def
    using scroll_loop_calm_cases [of 2 h "nat m"] by simp
  show "scroll_round thr (calm_page h k) s =
     (if snd (h k) = fst (h k) \<and> fst (h k) = last_height s
      then (if thr \<le> stable_rounds s + 1 then Break else Continue)
             (s\<lparr>stable_rounds := stable_rounds s + 1\<rparr>)
      else Continue \<lparr>last_height = snd (h k), stable_rounds = 0\<rparr>)"
    by (rule scroll_round_step)
qed

theorem scroll_stability_characterised_witness:
  "still (steady_heights [300, 300, 300, 300]) 1 \<and> still (steady_heights [300, 300, 300, 300]) 2 \<and>
   still (steady_heights [300, 300, 300, 300]) 3 \<and>
   exit_by (scroll_and_load_comments (calm_page (steady_heights [300, 300, 300, 300])) 30) = Stability_reached \<and>
   exit_by (scroll_and_expand (calm_page (steady_heights [300, 300, 300, 300])) 20) = Stability_reached"
proof -
  let ?h = "steady_heights [300, 300, 300, 300]"
  have s: "still ?h 1" "still ?h 2" "still ?h 3"
    by (simp_all add: still_def steady_heights_def height_at_def prev_height_def)
  have "1 + 3 \<le> nat 30 \<and> still ?h 1 \<and> still ?h (1 + 1) \<and> still ?h (1 + 2)"
    by (simp add: still_def steady_heights_def height_at_def prev_height_def)
  then have a: "\<exists>k. k + 3 \<le> nat 30 \<and> still ?h k \<and> still ?h (k + 1) \<and> still ?h (k + 2)"
    by (rule exI)
  have "1 + 2 \<le> nat 20 \<and> still ?h 1 \<and> still ?h (1 + 1)"
    by (simp add: still_def steady_heights_def height_at_def prev_height_def)
  then have b: "\<exists>k. k + 2 \<le> nat 20 \<and> still ?h k \<and> still ?h (k + 1)"
    by (rule exI)
  show ?thesis
    using scroll_stability_characterised [of ?h 30 0 0 scroll_init]
          scroll_stability_characterised [of ?h 20 0 0 scroll_init] a b s
    by simp
qed

text \<open>
  The claim as stated fails. The two variants do not share the threshold of 3: on a
  page that stays at height 300 the image scraper stops by stability after two still
  rounds, in round 3, where the comments scraper has used up a budget of 3. And the
  counter is reset in a round whose height before the scroll equals \<^verbatim>\<open>last_height\<close>
  when the height after it differs, and in a round whose height after the scroll equals
  \<^verbatim>\<open>last_height\<close> when the height before it differs.
\<close>

theorem scroll_variants_differ:
  "exit_by (scroll_and_expand (calm_page (steady_heights [300, 300, 300])) 3) = Stability_reached \<and>
   stable_rounds (final (scroll_and_expand (calm_page (steady_heights [300, 300, 300])) 3)) = 2 \<and>
   exit_by (scroll_and_load_comments (calm_page (steady_heights [300, 300, 300])) 3) = Budget_exhausted \<and>
   scroll_round 3 \<lparr>curr_read = Some 250, scroll_ok = True, new_read = Some 300\<rparr>
      \<lparr>last_height = 250, stable_rounds = 1\<rparr> = Continue \<lparr>last_height = 300, stable_rounds = 0\<rparr> \<and>
   scroll_round 3 \<lparr>curr_read = Some 300, scroll_ok = True, new_read = Some 250\<rparr>
      \<lparr>last_height = 250, stable_rounds = 1\<rparr> = Continue \<lparr>last_height = 250, stable_rounds = 0\<rparr>"
  by (simp add: scroll_and_load_comments_def scroll_and_expand_def scroll_init_def scroll_round_def
      calm_page_def steady_heights_def height_at_def eval_nat_numeral)

subsection \<open>The round budget\<close>

text \<open>
  Claim C4. When the page grows in every round, in that the height read after each
  round is strictly larger than the one read before its scroll, or in that it is
  strictly larger than the one read after the round before, both drivers end on the
  budget, having run exactly \<^verbatim>\<open>max_rounds\<close> rounds, with the counter below the
  threshold (3, and 2 in the image scraper). And on every page, raising or not, a driver
  runs at most \<^verbatim>\<open>max_rounds\<close> rounds.
\<close>

theorem scroll_budget_when_growing:
  assumes "(\<forall>k. fst (h k) < snd (h k)) \<or> (\<forall>k. snd (h k) < snd (h (Suc k)))"
  shows "exit_by (scroll_and_load_comments (calm_page h) m) = Budget_exhausted \<and>
         rounds_run (scroll_and_load_comments (calm_page h) m) = nat m \<and>
         stable_rounds (final (scroll_and_load_comments (calm_page h) m)) < 3 \<and>
         exit_by (scroll_and_expand (calm_page h) m) = Budget_exhausted \<and>
         rounds_run (scroll_and_expand (calm_page h) m) = nat m \<and>
         stable_rounds (final (scroll_and_expand (calm_page h) m)) < 2 \<and>
         rounds_run (scroll_and_load_comments page m) \<le> nat m \<and>
         rounds_run (scroll_and_expand page m) \<le> nat m"
proof -
  have small: "run_len h e \<le> 1" for e using assms by (rule growing_run_len)
  have lt3: "\<forall>i<nat m. run_len h (Suc i) < 3"
    by (intro allI impI le_less_trans [OF small]) simp
  have lt2: "\<forall>i<nat m. run_len h (Suc i) < 2"
    by (intro allI impI le_less_trans [OF small]) simp
  have a: "scroll_and_load_comments (calm_page h) m =
           \<lparr>exit_by = Budget_exhausted, rounds_run = nat m, final = state_after h (nat m)\<rparr>"
    unfolding scroll_and_load_comments_def using lt3 by (intro scroll_loop_budget) simp_all
  have b: "scroll_and_expand (calm_page h) m =
           \<lparr>exit_by = Budget_exhausted, rounds_run = nat m, final = state_after h (nat m)\<rparr>"
    unfolding scroll_and_expand_def using lt2 by (intro scroll_loop_budget) simp_all
  have c: "stable_rounds (state_after h (nat m)) \<le> 1"
    using small [of "nat m"] by (simp add: state_after_def)
  have d: "rounds_run (scroll_and_load_comments page m) \<le> nat m"
    unfolding scroll_and_load_comments_def using rounds_run_le [of 3 page 0 "nat m"] by simp
  have e: "rounds_run (scroll_and_expand page m) \<le> nat m"
    unfolding scroll_and_expand_def using rounds_run_le [of 2 page 0 "nat m"] by simp
  show ?thesis using c d e by (simp add: a b)
qed

theorem scroll_budget_when_growing_witness:
  "(\<forall>k. fst (100 * int k, 100 * int k + 100) < snd (100 * int k, 100 * int k + 100)) \<and>
   exit_by (scroll_and_load_comments (calm_page (\<lambda>k. (100 * int k, 100 * int k + 100))) 30) =
     Budget_exhausted \<and>
   rounds_run (scroll_and_load_comments (calm_page (\<lambda>k. (100 * int k, 100 * int k + 100))) 30) = 30 \<and>
   stable_rounds (final (scroll_and_load_comments
                           (calm_page (\<lambda>k. (100 * int k, 100 * int k + 100))) 30)) < 3 \<and>
   exit_by (scroll_and_expand (calm_page (\<lambda>k. (100 * int k, 100 * int k + 100))) 20) =
     Budget_exhausted \<and>
   rounds_run (scroll_and_expand (calm_page (\<lambda>k. (100 * int k, 100 * int k + 100))) 20) = 20"
proof -
  have g: "(\<forall>k. fst ((\<lambda>k. (100 * int k, 100 * int k + 100)) k)
               < snd ((\<lambda>k. (100 * int k, 100 * int k + 100)) k)) \<or>
           (\<forall>k. snd ((\<lambda>k. (100 * int k, 100 * int k + 100)) k)
               < snd ((\<lambda>k. (100 * int k, 100 * int k + 100)) (Suc k)))"
    by simp
  show ?thesis
    using scroll_budget_when_growing [OF g, of 30] scroll_budget_when_growing [OF g, of 20]
    by simp
qed

section \<open>Properties of the record extractor\<close>

subsection \<open>The like count\<close>

lemma parseInt_small: "parseInt (ascii ''128'') = Exact 128"
  by (simp add: parseInt_def ascii_def)

lemma parseInt_greatest_exact:
  "parseInt (ascii ''9007199254740992'') = Exact 9007199254740992"
  by (simp add: parseInt_def ascii_def)

lemma parseInt_beyond:
  "parseInt (ascii ''9007199254740993'') = Rounded (ascii ''9007199254740993'')"
  by (simp add: parseInt_def ascii_def)

subsection \<open>The deduplication loop\<close>

lemma contentKey_long:
  "contentKey c = contentKey c' \<Longrightarrow> 3 < length (content c) \<longleftrightarrow> 3 < length (content c')"
proof -
  assume eq: "contentKey c = contentKey c'"
  have "3 < length (content x) \<longleftrightarrow> 3 < length (contentKey x)" for x :: comment
    by (simp add: contentKey_def)
  then show ?thesis using eq by simp
qed

lemma key_seen_iff:
  assumes "3 < length (content x)"
  shows "contentKey x \<in> long_keys xs \<longleftrightarrow> (\<exists>j<length xs. contentKey (xs ! j) = contentKey x)"
proof
  assume "contentKey x \<in> long_keys xs"
  then obtain c where "c \<in> set xs" "contentKey c = contentKey x"
    by (auto simp: long_keys_def)
  then show "\<exists>j<length xs. contentKey (xs ! j) = contentKey x"
    by (auto simp: in_set_conv_nth)
next
  assume "\<exists>j<length xs. contentKey (xs ! j) = contentKey x"
  then obtain j where j: "j < length xs" "contentKey (xs ! j) = contentKey x" by blast
  then have "3 < length (content (xs ! j))" using assms contentKey_long by blast
  then show "contentKey x \<in> long_keys xs"
    using j unfolding long_keys_def by (metis (mono_tags, lifting) image_eqI mem_Collect_eq nth_mem)
qed

lemma first_of_key_append:
  "i < length xs \<Longrightarrow> first_of_key (xs @ [x]) i = first_of_key xs i"
  by (simp add: first_of_key_def nth_append)

lemma kept_append:
  "map ((!) (xs @ [x])) (filter (first_of_key (xs @ [x])) [0..<length xs]) =
   map ((!) xs) (filter (first_of_key xs) [0..<length xs])"
proof -
  have "filter (first_of_key (xs @ [x])) [0..<length xs] = filter (first_of_key xs) [0..<length xs]"
    by (rule filter_cong) (simp_all add: first_of_key_append)
  moreover have "map ((!) (xs @ [x])) (filter (first_of_key xs) [0..<length xs]) =
                 map ((!) xs) (filter (first_of_key xs) [0..<length xs])"
    by (rule map_cong) (simp_all add: nth_append)
  ultimately show ?thesis by simp
qed

lemma first_of_key_last:
  "first_of_key (xs @ [x]) (length xs) \<longleftrightarrow>
     3 < length (content x) \<and> contentKey x \<notin> long_keys xs"
proof (cases "3 < length (content x)")
  case True
  have "(\<forall>j<length xs. contentKey ((xs @ [x]) ! j) \<noteq> contentKey x) \<longleftrightarrow>
        \<not> (\<exists>j<length xs. contentKey (xs ! j) = contentKey x)"
    by (simp add: nth_append)
  then show ?thesis using True key_seen_iff [OF True, of xs]
    by (simp add: first_of_key_def)
next
  case False
  then show ?thesis by (simp add: first_of_key_def)
qed

lemma long_keys_snoc:
  "long_keys (xs @ [x]) =
     (if 3 < length (content x) then insert (contentKey x) (long_keys xs) else long_keys xs)"
  by (auto simp: long_keys_def)

lemma dedup_loop:
  "foldl dedup_step ({}, []) cs =
     (long_keys cs, map ((!) cs) (filter (first_of_key cs) [0..<length cs]))"
proof (induction cs rule: rev_induct)
  case Nil
  then show ?case by (simp add: long_keys_def)
next
  case (snoc x xs)
  let ?kept = "map ((!) xs) (filter (first_of_key xs) [0..<length xs])"
  have step: "foldl dedup_step ({}, []) (xs @ [x]) = dedup_step (long_keys xs, ?kept) x"
    by (simp add: snoc.IH)
  show ?case
  proof (cases "contentKey x \<notin> long_keys xs \<and> 3 < length (content x)")
    case True
    then have pushed: "dedup_step (long_keys xs, ?kept) x = (insert (contentKey x) (long_keys xs), ?kept @ [x])"
      by (simp add: dedup_step_def)
    show ?thesis unfolding step pushed using True
      by (simp add: long_keys_snoc kept_append first_of_key_last)
  next
    case False
    then have same: "dedup_step (long_keys xs, ?kept) x = (long_keys xs, ?kept)"
      by (auto simp: dedup_step_def)
    have "long_keys (xs @ [x]) = long_keys xs"
      using False by (auto simp: long_keys_snoc)
    moreover have "\<not> first_of_key (xs @ [x]) (length xs)"
      using False by (auto simp: first_of_key_last)
    ultimately show ?thesis unfolding step same
      by (simp add: kept_append)
  qed
qed

subsection \<open>The selector cascade\<close>

lemma try_selectors_log:
  "fst ` set (snd (try_selectors d sels log)) \<subseteq> fst ` set log \<union> set sels"
proof (induction sels arbitrary: log)
  case Nil
  then show ?case by simp
next
  case (Cons selector rest)
  show ?case
  proof (cases "d selector")
    case None
    then show ?thesis using Cons.IH [of log] by auto
  next
    case (Some elements)
    show ?thesis
    proof (cases "elements = []")
      case True
      then show ?thesis using Some Cons.IH [of "log @ [(selector, length elements)]"] by auto
    next
      case False
      then show ?thesis using Some by auto
    qed
  qed
qed

lemma try_selectors_none:
  "\<forall>s\<in>set sels. no_match d s \<Longrightarrow> fst (try_selectors d sels log) = []"
proof (induction sels arbitrary: log)
  case Nil
  then show ?case by simp
next
  case (Cons selector rest)
  then show ?case by (auto simp: no_match_def)
qed

lemma try_selectors_first:
  "\<forall>s\<in>set pre. no_match d s \<Longrightarrow> d selector = Some els \<Longrightarrow> els \<noteq> [] \<Longrightarrow>
   fst (try_selectors d (pre @ selector # post) log) = els"
proof (induction pre arbitrary: log)
  case Nil
  then show ?case by simp
next
  case (Cons p pre)
  then show ?case by (auto simp: no_match_def)
qed

lemma try_selectors_cong:
  "\<forall>s\<in>set sels. d' s = d s \<Longrightarrow> try_selectors d' sels log = try_selectors d sels log"
proof (induction sels arbitrary: log)
  case Nil
  then show ?case by simp
next
  case (Cons selector rest)
  then show ?case by (simp split: option.splits)
qed

lemma generic_not_selector: "generic_tags \<notin> set selectors"
  by (simp add: generic_tags_def selectors_def)

lemma feature_not_selector: "''text-feature-based'' \<notin> set selectors"
  by (simp add: selectors_def)

lemma split_at_index:
  "i < length xs \<Longrightarrow> xs = take i xs @ xs ! i # drop (Suc i) xs"
  by (simp add: id_take_nth_drop)

lemma comment_elements_first:
  "d (selectors ! 0) = Some els \<Longrightarrow> els \<noteq> [] \<Longrightarrow>
   comment_elements toLowerCase d = Some (els, [(selectors ! 0, length els)])"
  by (simp add: comment_elements_def selectors_def)

subsection \<open>Evaluating the end-to-end scenario\<close>

lemma js_trim_id:
  "s \<noteq> [] \<Longrightarrow> \<not> js_whitespace (hd s) \<Longrightarrow> \<not> js_whitespace (last s) \<Longrightarrow> js_trim s = s"
proof -
  assume s: "s \<noteq> []" and h: "\<not> js_whitespace (hd s)" and l: "\<not> js_whitespace (last s)"
  have front: "dropWhile js_whitespace s = s"
    using h by (simp add: dropWhile_eq_self_iff)
  have rear: "dropWhile js_whitespace (rev s) = rev s"
    using s l by (simp add: dropWhile_eq_self_iff hd_rev)
  show ?thesis by (simp add: js_trim_def front rear)
qed

lemma parse_text_element:
  "parse_candidate i (text_element t) =
     (if skipped (js_trim t) then None
      else Some \<lparr>index = i, content = js_trim t, username = [], timestamp = [], like_count = Exact 0,
                 element_class = [], element_tag = ascii ''DIV'', element_id = []\<rparr>)"
  by (simp add: parse_candidate_def text_element_def username_of_def timestamp_of_def)

lemma collect_comments_Cons:
  "List.map_filter (\<lambda>(i, e). parse_candidate i e) (enumerate n (e # es)) =
     (case parse_candidate n e of None \<Rightarrow> [] | Some c \<Rightarrow> [c]) @
     List.map_filter (\<lambda>(i, e). parse_candidate i e) (enumerate (Suc n) es)"
  by (simp add: List.map_filter_def split: option.splits)

lemma great_post_units:
  "ascii ''Great post! '' @ s_thumbs_up =
     [71, 114, 101, 97, 116, 32, 112, 111, 115, 116, 33, 32, 0xD83D, 0xDC4D]"
  "ascii ''Great post! '' @ s_thumbs_up @ ascii '' (dup)'' =
     [71, 114, 101, 97, 116, 32, 112, 111, 115, 116, 33, 32, 0xD83D, 0xDC4D, 32, 40, 100, 117, 112, 41]"
  "ascii ''ab'' = [97, 98]"
  by (simp_all add: ascii_def s_thumbs_up_def)

lemma scenario_trim:
  "js_trim [71, 114, 101, 97, 116, 32, 112, 111, 115, 116, 33, 32, 0xD83D, 0xDC4D] =
     [71, 114, 101, 97, 116, 32, 112, 111, 115, 116, 33, 32, 0xD83D, 0xDC4D]"
  "js_trim [71, 114, 101, 97, 116, 32, 112, 111, 115, 116, 33, 32, 0xD83D, 0xDC4D, 32, 40, 100, 117, 112, 41] =
     [71, 114, 101, 97, 116, 32, 112, 111, 115, 116, 33, 32, 0xD83D, 0xDC4D, 32, 40, 100, 117, 112, 41]"
  "js_trim [97, 98] = [97, 98]"
  "js_trim s_login = s_login"
  by (rule js_trim_id; simp add: js_whitespace_def s_login_def)+

lemma scenario_skipped:
  "\<not> skipped [71, 114, 101, 97, 116, 32, 112, 111, 115, 116, 33, 32, 0xD83D, 0xDC4D]"
  "\<not> skipped [71, 114, 101, 97, 116, 32, 112, 111, 115, 116, 33, 32, 0xD83D, 0xDC4D, 32, 40, 100, 117, 112, 41]"
  "\<not> skipped [97, 98]"
  "skipped s_login"
  by (simp_all add: skipped_def s_expand_more_def s_view_all_def s_comment_label_def
      s_like_label_def s_reply_label_def s_register_def s_login_def)

lemma scenario_collect:
  "collect_comments (map text_element
      [ascii ''Great post! '' @ s_thumbs_up,
       ascii ''Great post! '' @ s_thumbs_up @ ascii '' (dup)'',
       ascii ''ab'', s_login]) =
   [\<lparr>index = 0, content = [71, 114, 101, 97, 116, 32, 112, 111, 115, 116, 33, 32, 0xD83D, 0xDC4D],
      username = [], timestamp = [], like_count = Exact 0,
      element_class = [], element_tag = ascii ''DIV'', element_id = []\<rparr>,
    \<lparr>index = 1, content = [71, 114, 101, 97, 116, 32, 112, 111, 115, 116, 33, 32, 0xD83D, 0xDC4D, 32, 40, 100, 117, 112, 41],
      username = [], timestamp = [], like_count = Exact 0,
      element_class = [], element_tag = ascii ''DIV'', element_id = []\<rparr>,
    \<lparr>index = 2, content = [97, 98],
      username = [], timestamp = [], like_count = Exact 0,
      element_class = [], element_tag = ascii ''DIV'', element_id = []\<rparr>]"
  unfolding collect_comments_def great_post_units list.map collect_comments_Cons
    parse_text_element scenario_trim
  by (simp add: scenario_skipped List.map_filter_def)

lemma scenario_unique:
  "uniqueComments
   [\<lparr>index = 0, content = [71, 114, 101, 97, 116, 32, 112, 111, 115, 116, 33, 32, 0xD83D, 0xDC4D],
      username = [], timestamp = [], like_count = Exact 0,
      element_class = [], element_tag = ascii ''DIV'', element_id = []\<rparr>,
    \<lparr>index = 1, content = [71, 114, 101, 97, 116, 32, 112, 111, 115, 116, 33, 32, 0xD83D, 0xDC4D, 32, 40, 100, 117, 112, 41],
      username = [], timestamp = [], like_count = Exact 0,
      element_class = [], element_tag = ascii ''DIV'', element_id = []\<rparr>,
    \<lparr>index = 2, content = [97, 98],
      username = [], timestamp = [], like_count = Exact 0,
      element_class = [], element_tag = ascii ''DIV'', element_id = []\<rparr>] =
   [\<lparr>index = 0, content = [71, 114, 101, 97, 116, 32, 112, 111, 115, 116, 33, 32, 0xD83D, 0xDC4D],
      username = [], timestamp = [], like_count = Exact 0,
      element_class = [], element_tag = ascii ''DIV'', element_id = []\<rparr>,
    \<lparr>index = 1, content = [71, 114, 101, 97, 116, 32, 112, 111, 115, 116, 33, 32, 0xD83D, 0xDC4D, 32, 40, 100, 117, 112, 41],
      username = [], timestamp = [], like_count = Exact 0,
      element_class = [], element_tag = ascii ''DIV'', element_id = []\<rparr>]"
  by (simp add: uniqueComments_def dedup_step_def contentKey_def)

section \<open>The claims about the extractor\<close>

text \<open>
  Claim C1, as amended. For the candidate texts "Great post! (thumbs up)",
  "Great post! (thumbs up) (dup)", "ab" and the login label, parsing the candidates and
  deduplicating yields exactly two records, in this order: the one with the content
  "Great post! (thumbs up)" at position 0 and the one with the content
  "Great post! (thumbs up) (dup)" at position 1. The login label is dropped by the
  per-candidate filter and "ab" by the length test of the deduplication. The two
  remaining texts are 14 and 20 code units long, so their keys, the first 30 code units,
  are the texts themselves and differ. The same holds when the four candidates are what
  the first selector of the cascade matches in the document.
\<close>

theorem end_to_end_scenario:
  "map content (uniqueComments (collect_comments (map text_element
       [ascii ''Great post! '' @ s_thumbs_up,
        ascii ''Great post! '' @ s_thumbs_up @ ascii '' (dup)'',
        ascii ''ab'', s_login]))) =
     [ascii ''Great post! '' @ s_thumbs_up,
      ascii ''Great post! '' @ s_thumbs_up @ ascii '' (dup)''] \<and>
   map index (uniqueComments (collect_comments (map text_element
       [ascii ''Great post! '' @ s_thumbs_up,
        ascii ''Great post! '' @ s_thumbs_up @ ascii '' (dup)'',
        ascii ''ab'', s_login]))) = [0, 1] \<and>
   map content (extract_comments (\<lambda>s. s)
      (Some (\<lambda>selector. if selector = selectors ! 0
                         then Some (map text_element
       [ascii ''Great post! '' @ s_thumbs_up,
        ascii ''Great post! '' @ s_thumbs_up @ ascii '' (dup)'',
        ascii ''ab'', s_login])
                         else Some []))) =
     [ascii ''Great post! '' @ s_thumbs_up,
      ascii ''Great post! '' @ s_thumbs_up @ ascii '' (dup)'']"
proof -
  let ?els = "map text_element
       [ascii ''Great post! '' @ s_thumbs_up,
        ascii ''Great post! '' @ s_thumbs_up @ ascii '' (dup)'',
        ascii ''ab'', s_login]"
  let ?d = "\<lambda>selector. if selector = selectors ! 0 then Some ?els else Some []"
  have u: "uniqueComments (collect_comments ?els) =
     [\<lparr>index = 0, content = [71, 114, 101, 97, 116, 32, 112, 111, 115, 116, 33, 32, 0xD83D, 0xDC4D],
        username = [], timestamp = [], like_count = Exact 0,
        element_class = [], element_tag = ascii ''DIV'', element_id = []\<rparr>,
      \<lparr>index = 1, content = [71, 114, 101, 97, 116, 32, 112, 111, 115, 116, 33, 32, 0xD83D, 0xDC4D, 32, 40, 100, 117, 112, 41],
        username = [], timestamp = [], like_count = Exact 0,
        element_class = [], element_tag = ascii ''DIV'', element_id = []\<rparr>]"
    by (simp only: scenario_collect scenario_unique)
  have "comment_elements (\<lambda>s. s) ?d = Some (?els, [(selectors ! 0, length ?els)])"
    by (rule comment_elements_first) simp_all
  then have e: "extract_comments (\<lambda>s. s) (Some ?d) = uniqueComments (collect_comments ?els)"
    by (simp add: extract_comments_def extract_script_def)
  show ?thesis
    unfolding e u by (simp add: great_post_units)
qed

text \<open>
  The claim as stated, exactly one record, fails: the record of the text ending in
  "(dup)" is not collapsed into the first.
\<close>

theorem end_to_end_scenario_keeps_dup:
  "length (uniqueComments (collect_comments (map text_element
       [ascii ''Great post! '' @ s_thumbs_up,
        ascii ''Great post! '' @ s_thumbs_up @ ascii '' (dup)'',
        ascii ''ab'', s_login]))) \<noteq> 1"
  by (simp only: scenario_collect scenario_unique) simp

text \<open>
  Claim C5. When every selector of the fixed list yields no element (its query throws or
  matches nothing), the candidates are the elements of the generic tags that pass the
  text-feature filter, and the search log has the entry of the text-feature search.
  When the selector at position \<open>i\<close> matches at least one element and no selector before
  it does, its matches are the candidates, the log has no entry of the text-feature
  search, and whatever the generic query would answer, throwing included, changes
  nothing: it is not evaluated.
\<close>

theorem tier_fallback:
  "((\<forall>selector\<in>set selectors. no_match d selector) \<and> d generic_tags = Some allElements \<longrightarrow>
      (\<exists>log. comment_elements toLowerCase d = Some (filter (text_feature toLowerCase) allElements, log) \<and>
             ''text-feature-based'' \<in> fst ` set log)) \<and>
   (i < length selectors \<and> d (selectors ! i) = Some els \<and> els \<noteq> [] \<and>
      (\<forall>j<i. no_match d (selectors ! j)) \<longrightarrow>
      (\<exists>log. comment_elements toLowerCase d = Some (els, log) \<and>
             ''text-feature-based'' \<notin> fst ` set log \<and>
             (\<forall>answer. comment_elements toLowerCase (d(generic_tags := answer)) = Some (els, log))))"
proof (intro conjI impI)
  assume a: "(\<forall>selector\<in>set selectors. no_match d selector) \<and> d generic_tags = Some allElements"
  obtain found log where t: "try_selectors d selectors [] = (found, log)"
    by (cases "try_selectors d selectors []")
  have "found = []"
    using try_selectors_none [of selectors d "[]"] a t by simp
  then have "comment_elements toLowerCase d =
        Some (filter (text_feature toLowerCase) allElements,
              log @ [(''text-feature-based'', length (filter (text_feature toLowerCase) allElements))])"
    using a t by (simp add: comment_elements_def)
  then show "\<exists>log. comment_elements toLowerCase d = Some (filter (text_feature toLowerCase) allElements, log) \<and>
             ''text-feature-based'' \<in> fst ` set log"
    by force
next
  assume b: "i < length selectors \<and> d (selectors ! i) = Some els \<and> els \<noteq> [] \<and>
      (\<forall>j<i. no_match d (selectors ! j))"
  obtain found log where t: "try_selectors d selectors [] = (found, log)"
    by (cases "try_selectors d selectors []")
  have pre: "\<forall>s\<in>set (take i selectors). no_match d s"
    using b by (auto simp: in_set_conv_nth)
  have "fst (try_selectors d (take i selectors @ selectors ! i # drop (Suc i) selectors) []) = els"
    using pre b by (intro try_selectors_first) simp_all
  then have found: "found = els"
    using t split_at_index [of i selectors] b by simp
  have keys: "fst ` set log \<subseteq> set selectors"
    using try_selectors_log [of d selectors "[]"] t by simp
  have same: "try_selectors (d(generic_tags := answer)) selectors [] = (found, log)" for answer
    using try_selectors_cong [of selectors "d(generic_tags := answer)" d "[]"] generic_not_selector t
    by auto
  have "comment_elements toLowerCase d = Some (els, log)"
    using t found b by (simp add: comment_elements_def)
  moreover have "''text-feature-based'' \<notin> fst ` set log"
    using keys feature_not_selector by blast
  moreover have "\<forall>answer. comment_elements toLowerCase (d(generic_tags := answer)) = Some (els, log)"
    using same found b by (simp add: comment_elements_def)
  ultimately show "\<exists>log. comment_elements toLowerCase d = Some (els, log) \<and>
             ''text-feature-based'' \<notin> fst ` set log \<and>
             (\<forall>answer. comment_elements toLowerCase (d(generic_tags := answer)) = Some (els, log))"
    by blast
qed

theorem tier_fallback_witness:
  "(\<exists>log. comment_elements (\<lambda>s. s)
            (\<lambda>selector. if selector = generic_tags
                        then Some [text_element (ascii ''so true '' @ s_thumbs_up), text_element (ascii ''menu'')]
                        else Some []) =
          Some ([text_element (ascii ''so true '' @ s_thumbs_up)], log) \<and>
          ''text-feature-based'' \<in> fst ` set log) \<and>
   (\<exists>log. comment_elements (\<lambda>s. s)
            (\<lambda>selector. if selector = selectors ! 1 then Some [text_element (ascii ''first!'')]
                        else Some []) =
          Some ([text_element (ascii ''first!'')], log) \<and>
          ''text-feature-based'' \<notin> fst ` set log)"
proof -
  let ?a = "text_element (ascii ''so true '' @ s_thumbs_up)"
  let ?b = "text_element (ascii ''menu'')"
  let ?d1 = "\<lambda>selector. if selector = generic_tags then Some [?a, ?b] else Some []"
  let ?d2 = "\<lambda>selector. if selector = selectors ! 1 then Some [text_element (ascii ''first!'')]
                        else Some []"
  have none: "\<forall>selector\<in>set selectors. no_match ?d1 selector"
    by (simp add: selectors_def generic_tags_def no_match_def)
  have generic: "?d1 generic_tags = Some [?a, ?b]"
    by simp
  have chosen: "filter (text_feature (\<lambda>s. s)) [?a, ?b] = [?a]"
    by (simp add: text_feature_def text_element_def ascii_def s_thumbs_up_def s_reply_label_def
        s_like_label_def s_heart_def s_minutes_ago_def s_hours_ago_def s_days_ago_def
        s_just_now_def)
  have second: "1 < length selectors \<and> ?d2 (selectors ! 1) = Some [text_element (ascii ''first!'')] \<and>
      [text_element (ascii ''first!'')] \<noteq> [] \<and> (\<forall>j<1. no_match ?d2 (selectors ! j))"
    by (simp add: selectors_def no_match_def)
  show ?thesis
    using tier_fallback [of ?d1 "[?a, ?b]" "\<lambda>s. s" 0 "[]"] none generic chosen
          tier_fallback [of ?d2 "[]" "\<lambda>s. s" 1 "[text_element (ascii ''first!'')]"] second
    by auto
qed

text \<open>
  Claim C6. The output of the deduplication consists of the records, in the order of the
  input, that are longer than 3 code units and whose key, the first 30 code units of the
  content, is borne by no earlier record of the input. So of the records sharing a key
  only the first can survive, a record of length at most 3 is dropped even when its
  key is unique, and the survivors keep their first-seen order.
\<close>

theorem uniqueComments_keeps_first_of_each_key:
  "uniqueComments cs =
     map ((!) cs)
       (filter (\<lambda>i. 3 < length (content (cs ! i)) \<and>
                    (\<forall>j<i. take 30 (content (cs ! j)) \<noteq> take 30 (content (cs ! i))))
          [0..<length cs])"
proof -
  have "first_of_key cs = (\<lambda>i. 3 < length (content (cs ! i)) \<and>
                    (\<forall>j<i. take 30 (content (cs ! j)) \<noteq> take 30 (content (cs ! i))))"
    by (simp add: first_of_key_def contentKey_def fun_eq_iff)
  then show ?thesis by (simp add: uniqueComments_def dedup_loop)
qed

theorem uniqueComments_keeps_first_of_each_key_witness:
  "uniqueComments
     [bare_comment 0 (replicate 30 97 @ [98]), bare_comment 1 (replicate 30 97 @ [99]),
      bare_comment 2 [97, 98, 99], bare_comment 3 [104, 101, 108, 108, 111]] =
     [bare_comment 0 (replicate 30 97 @ [98]), bare_comment 3 [104, 101, 108, 108, 111]]"
proof -
  let ?cs = "[bare_comment 0 (replicate 30 97 @ [98]), bare_comment 1 (replicate 30 97 @ [99]),
      bare_comment 2 [97, 98, 99], bare_comment 3 [104, 101, 108, 108, 111]]"
  have idx: "[0..<length ?cs] = [0, Suc 0, Suc (Suc 0), Suc (Suc (Suc 0))]"
    by (simp add: upt_rec)
  have keep: "(\<forall>j<Suc (Suc (Suc 0)). P j) \<longleftrightarrow> P 0 \<and> P (Suc 0) \<and> P (Suc (Suc 0))" for P
    by (auto simp: less_Suc_eq)
  have ne: "replicate 30 (97::nat) \<noteq> [104, 101, 108, 108, 111]"
  proof
    assume "replicate 30 (97::nat) = [104, 101, 108, 108, 111]"
    then have "length (replicate 30 (97::nat)) = length [104, 101, 108, 108, 111::nat]"
      by (rule arg_cong)
    then show False by simp
  qed
  show ?thesis
    unfolding uniqueComments_keeps_first_of_each_key [of ?cs] idx
    by (simp add: bare_comment_def keep ne)
qed

section \<open>Exceptions during the scroll rounds\<close>






section \<open>Properties of the cookie string parser\<close>

lemma py_split_no_sep: "sep \<notin> set w \<Longrightarrow> py_split sep w = [w]"
  by (induction w) auto

lemma py_split_append: "sep \<notin> set w \<Longrightarrow> py_split sep (w @ sep # rest) = w # py_split sep rest"
  by (induction w) auto

lemma py_split_join:
  "ws \<noteq> [] \<Longrightarrow> \<forall>w\<in>set ws. sep \<notin> set w \<Longrightarrow> py_split sep (py_join sep ws) = ws"
proof (induction sep ws rule: py_join.induct)
  case (1 sep)
  then show ?case by simp
next
  case (2 sep p)
  then show ?case by (simp add: py_split_no_sep)
next
  case (3 sep p q ps)
  then show ?case by (simp add: py_split_append)
qed

lemma py_space_eq: "\<not> py_space CHR ''=''"
  by (simp add: py_space_def)

lemma py_strip_dropWhile: "py_strip (dropWhile py_space s) = py_strip s"
  by (simp add: py_strip_def)

lemma py_strip_trimmed: "trimmed s \<Longrightarrow> py_strip s = s"
proof (cases "s = []")
  case True
  then show ?thesis by (simp add: py_strip_def)
next
  case False
  assume "trimmed s"
  then have ends: "\<not> py_space (hd s)" "\<not> py_space (last s)"
    using False by (simp_all add: trimmed_def)
  have front: "dropWhile py_space s = s"
    using ends(1) by (simp add: dropWhile_eq_self_iff)
  have rear: "dropWhile py_space (rev s) = rev s"
    using False ends(2) by (simp add: dropWhile_eq_self_iff hd_rev)
  show ?thesis by (simp add: py_strip_def front rear)
qed

lemma py_strip_pair:
  assumes "trimmed v"
  shows "py_strip (n @ CHR ''='' # v) = dropWhile py_space n @ CHR ''='' # v"
proof -
  have front: "dropWhile py_space (n @ CHR ''='' # v) = dropWhile py_space n @ CHR ''='' # v"
    by (induction n) (simp_all add: py_space_eq)
  have "hd (rev v @ CHR ''='' # rev (dropWhile py_space n)) = (if v = [] then CHR ''='' else last v)"
    by (cases v rule: rev_cases) simp_all
  then have "\<not> py_space (hd (rev v @ CHR ''='' # rev (dropWhile py_space n)))"
    using assms by (auto simp: trimmed_def py_space_eq)
  then have rear: "dropWhile py_space (rev v @ CHR ''='' # rev (dropWhile py_space n)) =
                   rev v @ CHR ''='' # rev (dropWhile py_space n)"
    by (simp add: dropWhile_eq_self_iff)
  show ?thesis
    by (simp add: py_strip_def front rear)
qed

lemma name_before_eq:
  "CHR ''='' \<notin> set n \<Longrightarrow> takeWhile (\<lambda>c. c \<noteq> CHR ''='') (n @ CHR ''='' # v) = n"
  by (induction n) auto

lemma value_after_eq:
  "CHR ''='' \<notin> set n \<Longrightarrow> tl (dropWhile (\<lambda>c. c \<noteq> CHR ''='') (n @ CHR ''='' # v)) = v"
  by (induction n) auto

lemma parse_stripped_pair:
  assumes "well_formed_pair p"
  shows "parse_pairs clock (py_strip (pair_text p) # rest) valid =
         parse_pairs clock rest
           (valid @ [make_cookie (clock (length valid)) (py_strip (fst p)) (snd p)])"
proof -
  obtain n v where p: "p = (n, v)" by (cases p)
  have wf: "CHR ''='' \<notin> set n" "trimmed v"
    using assms by (simp_all add: well_formed_pair_def p)
  let ?m = "dropWhile py_space n"
  have m: "CHR ''='' \<notin> set ?m"
    using wf(1) set_dropWhileD by fastforce
  have s: "py_strip (pair_text p) = ?m @ CHR ''='' # v"
    using wf(2) by (simp add: pair_text_def p py_strip_pair)
  show ?thesis
    unfolding s using m wf(2)
    by (simp add: name_before_eq [OF m] value_after_eq [OF m] py_strip_dropWhile
        py_strip_trimmed p)
qed

lemma parse_stripped_pairs:
  "\<forall>p\<in>set ps. well_formed_pair p \<Longrightarrow>
   parse_pairs clock (map (\<lambda>p. py_strip (pair_text p)) ps) valid =
     valid @ map (\<lambda>(i, p). make_cookie (clock i) (py_strip (fst p)) (snd p))
               (enumerate (length valid) ps)"
proof (induction ps arbitrary: valid)
  case Nil
  then show ?case by simp
next
  case (Cons p ps)
  have "parse_pairs clock (map (\<lambda>p. py_strip (pair_text p)) (p # ps)) valid =
        parse_pairs clock (map (\<lambda>p. py_strip (pair_text p)) ps)
          (valid @ [make_cookie (clock (length valid)) (py_strip (fst p)) (snd p)])"
    unfolding list.map by (rule parse_stripped_pair) (use Cons.prems in simp)
  also have "\<dots> = (valid @ [make_cookie (clock (length valid)) (py_strip (fst p)) (snd p)]) @
        map (\<lambda>(i, p). make_cookie (clock i) (py_strip (fst p)) (snd p))
          (enumerate (Suc (length valid)) ps)"
    using Cons.IH [of "valid @ [make_cookie (clock (length valid)) (py_strip (fst p)) (snd p)]"]
      Cons.prems by simp
  finally show ?case by simp
qed

lemma stripped_pair_nonempty:
  "well_formed_pair p \<Longrightarrow> py_strip (pair_text p) \<noteq> []"
  by (cases p) (simp add: well_formed_pair_def pair_text_def py_strip_pair)

lemma pair_text_no_semicolon:
  "well_formed_pair p \<Longrightarrow> CHR '';'' \<notin> set (pair_text p)"
  by (simp add: well_formed_pair_def pair_text_def)

lemma py_join_nonempty:
  "ws \<noteq> [] \<Longrightarrow> \<forall>w\<in>set ws. w \<noteq> [] \<Longrightarrow> py_join sep ws \<noteq> []"
  by (induction sep ws rule: py_join.induct) simp_all

lemma parse_cookie_string_well_formed:
  assumes "ps \<noteq> []" and "\<forall>p\<in>set ps. well_formed_pair p"
  shows "parse_cookie_string clock (cookie_string_of ps) =
         Some (map (\<lambda>(i, p). make_cookie (clock i) (py_strip (fst p)) (snd p)) (enumerate 0 ps))"
proof -
  have nonempty: "cookie_string_of ps \<noteq> []"
    unfolding cookie_string_of_def using assms(1)
    by (intro py_join_nonempty) (simp_all add: pair_text_def)
  have split: "py_split CHR '';'' (cookie_string_of ps) = map pair_text ps"
    unfolding cookie_string_of_def using assms
    by (intro py_split_join) (simp_all add: pair_text_no_semicolon)
  have "\<forall>pair\<in>set (map (\<lambda>p. py_strip (pair_text p)) ps). pair \<noteq> []"
    using assms(2) by (auto simp: stripped_pair_nonempty)
  then have "filter (\<lambda>pair. pair \<noteq> []) (map (\<lambda>p. py_strip (pair_text p)) ps) =
             map (\<lambda>p. py_strip (pair_text p)) ps"
    by (simp only: filter_id_conv)
  then have pairs: "filter (\<lambda>pair. pair \<noteq> [])
                      (map py_strip (py_split CHR '';'' (cookie_string_of ps))) =
                    map (\<lambda>p. py_strip (pair_text p)) ps"
    unfolding split by (simp add: o_def)
  have "parse_pairs clock (map (\<lambda>p. py_strip (pair_text p)) ps) [] =
        map (\<lambda>(i, p). make_cookie (clock i) (py_strip (fst p)) (snd p)) (enumerate 0 ps)"
    using parse_stripped_pairs [OF assms(2), of clock "[]"] by simp
  then show ?thesis
    unfolding parse_cookie_string_def pairs using nonempty by simp
qed

text \<open>
  Claim C7. For a cookie string made of at least one pair \<open>name=value\<close>, the pairs joined
  by semicolons, where no name holds \<^verbatim>\<open>;\<close> or \<^verbatim>\<open>=\<close> and no value holds \<^verbatim>\<open>;\<close> or starts
  or ends with white space, the parser returns one cookie for each pair, in the order of
  the pairs. The cookie of the \<open>i\<close>-th pair has the pair's value unchanged, the pair's
  name stripped of white space, the domain \<^verbatim>\<open>.xiaohongshu.com\<close>, the path \<^verbatim>\<open>/\<close>, and
  as its expiry the reading of the clock taken when it is built plus 24 hours in
  seconds.
\<close>

theorem parse_cookie_string_one_per_pair:
  assumes "ps \<noteq> []" and "\<forall>p\<in>set ps. well_formed_pair p"
  shows "\<exists>cookies. parse_cookie_string clock (cookie_string_of ps) = Some cookies \<and>
           length cookies = length ps \<and>
           (\<forall>i<length ps.
              c_name (cookies ! i) = py_strip (fst (ps ! i)) \<and>
              c_value (cookies ! i) = snd (ps ! i) \<and>
              c_domain (cookies ! i) = ''.xiaohongshu.com'' \<and>
              c_path (cookies ! i) = ''/'' \<and>
              c_expires (cookies ! i) = clock i + 24 * 60 * 60)"
proof -
  let ?cookies = "map (\<lambda>(i, p). make_cookie (clock i) (py_strip (fst p)) (snd p)) (enumerate 0 ps)"
  have "parse_cookie_string clock (cookie_string_of ps) = Some ?cookies"
    using assms by (rule parse_cookie_string_well_formed)
  moreover have "length ?cookies = length ps"
    by simp
  moreover have "\<forall>i<length ps.
              c_name (?cookies ! i) = py_strip (fst (ps ! i)) \<and>
              c_value (?cookies ! i) = snd (ps ! i) \<and>
              c_domain (?cookies ! i) = ''.xiaohongshu.com'' \<and>
              c_path (?cookies ! i) = ''/'' \<and>
              c_expires (?cookies ! i) = clock i + 24 * 60 * 60"
    by (simp add: nth_enumerate_eq make_cookie_def)
  ultimately show ?thesis by blast
qed

theorem parse_cookie_string_one_per_pair_witness:
  "\<exists>cookies. parse_cookie_string (\<lambda>k. 1000 + int k) ''a1=xyz;name2=value2'' = Some cookies \<and>
     length cookies = 2 \<and>
     c_value (cookies ! 0) = ''xyz'' \<and> c_value (cookies ! 1) = ''value2'' \<and>
     c_domain (cookies ! 1) = ''.xiaohongshu.com'' \<and> c_path (cookies ! 1) = ''/'' \<and>
     c_expires (cookies ! 1) = 1001 + 24 * 60 * 60"
proof -
  let ?ps = "[(''a1'', ''xyz''), (''name2'', ''value2'')]"
  have ne: "?ps \<noteq> []" by simp
  have wf: "\<forall>p\<in>set ?ps. well_formed_pair p"
    by (simp add: well_formed_pair_def trimmed_def py_space_def)
  have rendered: "cookie_string_of ?ps = ''a1=xyz;name2=value2''"
    by (simp add: cookie_string_of_def pair_text_def)
  obtain cookies where
    c: "parse_cookie_string (\<lambda>k. 1000 + int k) (cookie_string_of ?ps) = Some cookies"
       "length cookies = length ?ps"
       "\<forall>i<length ?ps.
              c_name (cookies ! i) = py_strip (fst (?ps ! i)) \<and>
              c_value (cookies ! i) = snd (?ps ! i) \<and>
              c_domain (cookies ! i) = ''.xiaohongshu.com'' \<and>
              c_path (cookies ! i) = ''/'' \<and>
              c_expires (cookies ! i) = (\<lambda>k. 1000 + int k) i + 24 * 60 * 60"
    using parse_cookie_string_one_per_pair [OF ne wf, of "\<lambda>k. 1000 + int k"] by blast
  have "c_value (cookies ! 0) = ''xyz''"
    using c(3) [rule_format, of 0] by simp
  moreover have "c_value (cookies ! 1) = ''value2'' \<and>
     c_domain (cookies ! 1) = ''.xiaohongshu.com'' \<and> c_path (cookies ! 1) = ''/'' \<and>
     c_expires (cookies ! 1) = 1001 + 24 * 60 * 60"
    using c(3) [rule_format, of 1] by simp
  ultimately show ?thesis
    using c(1,2) unfolding rendered by simp
qed

section \<open>Properties of the cookie file loader\<close>

lemma collect_valid_eq:
  "collect_valid items valid = valid @ map with_defaults (filter is_cookie items)"
  by (induction items arbitrary: valid) simp_all

lemma collect_valid_ce_eq:
  "collect_valid_ce clock items valid =
     valid @ map (\<lambda>(k, c). with_defaults_ce (clock k) c)
               (enumerate (length valid) (filter is_cookie items))"
  by (induction items arbitrary: valid) simp_all

lemma map_of_set_default:
  "key \<noteq> k \<Longrightarrow> map_of (set_default k v kvs) key = map_of kvs key"
  by (auto simp: set_default_def map_add_def split: option.splits)

lemma map_of_snoc_other:
  "key \<noteq> k \<Longrightarrow> map_of (kvs @ [(k, v)]) key = map_of kvs key"
  by (auto simp: map_add_def split: option.splits)

lemma list_all_enumerate:
  "\<forall>c\<in>set xs. \<forall>k. P (f k c) \<Longrightarrow> list_all P (map (\<lambda>(k, c). f k c) (enumerate n xs))"
  by (induction xs arbitrary: n) simp_all

lemma preview_ok_cong:
  "map_of kvs' ''name'' = map_of kvs ''name'' \<Longrightarrow> map_of kvs' ''value'' = map_of kvs ''value'' \<Longrightarrow>
   preview_ok (JObj kvs') = preview_ok (JObj kvs)"
  by (simp split: option.splits json.splits)

lemma preview_ok_with_defaults: "preview_ok (with_defaults c) = preview_ok c"
proof (cases c)
  case (JObj kvs)
  show ?thesis
    unfolding JObj with_defaults.simps
    by (rule preview_ok_cong) (simp_all add: map_of_set_default)
qed simp_all

lemma preview_ok_with_defaults_ce: "preview_ok (with_defaults_ce now c) = preview_ok c"
proof (cases c)
  case (JObj kvs)
  let ?kvs' = "set_default ''path'' (JStr ''/'')
                 (set_default ''domain'' (JStr ''.xiaohongshu.com'') kvs)"
  let ?e = "(''expires'', JNum (now + 24 * 60 * 60))"
  have plain: "map_of ?kvs' ''name'' = map_of kvs ''name''" "map_of ?kvs' ''value'' = map_of kvs ''value''"
    by (simp_all add: map_of_set_default)
  have dated: "map_of (?kvs' @ [?e]) ''name'' = map_of kvs ''name''"
              "map_of (?kvs' @ [?e]) ''value'' = map_of kvs ''value''"
    using plain by (simp_all add: map_of_snoc_other del: map_of_append)
  show ?thesis
  proof (cases "''expires'' \<notin> fst ` set ?kvs' \<and> ''maxAge'' \<notin> fst ` set ?kvs'")
    case True
    then have w: "with_defaults_ce now (JObj kvs) = JObj (?kvs' @ [?e])"
      by (simp add: Let_def)
    show ?thesis
      unfolding JObj w by (rule preview_ok_cong) (rule dated)+
  next
    case False
    then have w: "with_defaults_ce now (JObj kvs) = JObj ?kvs'"
      by (auto simp: Let_def)
    show ?thesis
      unfolding JObj w by (rule preview_ok_cong) (rule plain)+
  qed
qed simp_all

text \<open>
  Claim C8, as amended. When the cookie file yields a non-empty list of records (a bare
  array, the \<^verbatim>\<open>cookies\<close> field, a single object, or the first list-valued field whose
  first element has a name), session preparation does not fail on a record that lacks a
  name or a value: both loaders omit that record without a word and return the other
  records, in their order, each completed with its defaults. The one condition is that
  the logging of the important cookies can preview their values.
\<close>

theorem load_cookies_omits_malformed:
  assumes "locate_cookies data = Some (Some (JArr items))"
      and "items \<noteq> []"
      and "\<forall>c\<in>set items. is_cookie c \<longrightarrow> preview_ok c"
  shows "load_cookies (Holds data) = Some (map with_defaults (filter is_cookie items)) \<and>
         load_cookies_ce clock (Holds data) None =
           Some (From_file (map (\<lambda>(k, c). with_defaults_ce (clock k) c)
                              (enumerate 0 (filter is_cookie items))))"
proof -
  have a: "list_all preview_ok (map with_defaults (filter is_cookie items))"
    using assms(3) by (simp add: list_all_iff preview_ok_with_defaults)
  have b: "list_all preview_ok (map (\<lambda>(k, c). with_defaults_ce (clock k) c)
                              (enumerate 0 (filter is_cookie items)))"
    using assms(3) by (intro list_all_enumerate) (simp add: preview_ok_with_defaults_ce)
  show ?thesis
    using assms(1,2) a b
    by (simp add: cookies_of_data_def collect_valid_eq collect_valid_ce_eq)
qed

theorem load_cookies_omits_malformed_witness:
  "load_cookies (Holds (JArr [JObj [(''name'', JStr ''a1''), (''value'', JStr ''x'')],
                              JObj [(''foo'', JStr ''bar'')]])) =
     Some [JObj [(''name'', JStr ''a1''), (''value'', JStr ''x''),
                 (''domain'', JStr ''.xiaohongshu.com''), (''path'', JStr ''/'')]]"
proof -
  let ?items = "[JObj [(''name'', JStr ''a1''), (''value'', JStr ''x'')],
                 JObj [(''foo'', JStr ''bar'')]]"
  have l: "locate_cookies (JArr ?items) = Some (Some (JArr ?items))" by simp
  have n: "?items \<noteq> []" by simp
  have p: "\<forall>c\<in>set ?items. is_cookie c \<longrightarrow> preview_ok c"
    by (simp add: important_names_def)
  show ?thesis
    using load_cookies_omits_malformed [OF l n p, of "\<lambda>k. 0"]
    by (simp add: set_default_def)
qed

text \<open>
  The claim as stated fails: for the array of a well-formed cookie and a record that has
  neither a name nor a value, both loaders return the well-formed cookie.
\<close>

theorem load_cookies_succeeds_on_malformed:
  "load_cookies (Holds (JArr [JObj [(''name'', JStr ''a1''), (''value'', JStr ''x'')],
                              JObj [(''foo'', JStr ''bar'')]])) \<noteq> None \<and>
   load_cookies_ce (\<lambda>k. 1000 + int k)
      (Holds (JArr [JObj [(''name'', JStr ''a1''), (''value'', JStr ''x'')],
                    JObj [(''foo'', JStr ''bar'')]])) None =
     Some (From_file [JObj [(''name'', JStr ''a1''), (''value'', JStr ''x''),
                 (''domain'', JStr ''.xiaohongshu.com''), (''path'', JStr ''/''),
                 (''expires'', JNum (1000 + 24 * 60 * 60))]])"
  by (simp add: cookies_of_data_def set_default_def important_names_def)

section \<open>Properties of the image URL converter\<close>

subsection \<open>The characters of the new query\<close>

lemma scheme_chars_facts:
  "list_all (\<lambda>c. py_lower_char c \<in> set scheme_chars \<and>
                  py_lower_char (py_lower_char c) = py_lower_char c \<and>
                  \<not> unsafe_url_byte c \<and> c \<noteq> CHR '':'' \<and>
                  (ascii_alpha c \<longrightarrow> ascii_alpha (py_lower_char c))) scheme_chars"
  by code_simp

lemma good_format_text:
  "list_all (\<lambda>c. \<not> unsafe_url_byte c \<and> c \<noteq> CHR ''#'') ''&imageMogr2/format/''"
  by code_simp

lemma good_attname_text:
  "list_all (\<lambda>c. \<not> unsafe_url_byte c \<and> c \<noteq> CHR ''#'') ''&attname=''"
  by code_simp

lemma good_jpg: "list_all (\<lambda>c. \<not> unsafe_url_byte c \<and> c \<noteq> CHR ''#'') ''jpg''"
  by code_simp

lemma good_png: "list_all (\<lambda>c. \<not> unsafe_url_byte c \<and> c \<noteq> CHR ''#'') ''png''"
  by code_simp

lemma good_always_safe: "list_all (\<lambda>c. \<not> unsafe_url_byte c \<and> c \<noteq> CHR ''#'') always_safe"
  by code_simp

lemma good_hex_digits:
  "list_all (\<lambda>c. \<not> unsafe_url_byte c \<and> c \<noteq> CHR ''#'') (CHR ''%'' # hex_digits)"
  by code_simp

lemma delimiter_facts:
  "list_all (\<lambda>c. \<not> unsafe_url_byte c \<and> \<not> c0_control_or_space c \<and> \<not> ascii_alpha c) ''/?#:''"
  by code_simp

lemma hex_digit_mem: "d < 16 \<Longrightarrow> hex_digit d \<in> set hex_digits"
  unfolding hex_digit_def by (rule nth_mem) (simp add: hex_digits_def)

lemma of_char_below: "(of_char c :: nat) < 256"
proof -
  have "(of_char c :: nat) mod 256 < 256" by simp
  then show ?thesis by (simp only: of_char_mod_256)
qed

lemma utf8_byte: "b \<in> set (utf8 c) \<Longrightarrow> b < 256"
proof -
  have "(of_char c :: nat) div 64 < 4"
    using of_char_below [of c] by (simp add: div_less_iff_less_mult)
  moreover have "(of_char c :: nat) mod 64 < 64" by simp
  moreover assume "b \<in> set (utf8 c)"
  ultimately show ?thesis by (auto simp: utf8_def Let_def split: if_splits)
qed

lemma quote_byte_chars:
  assumes "b < 256"
  shows "set (quote_byte b) \<subseteq> set always_safe \<union> insert CHR ''%'' (set hex_digits)"
proof (cases "b < 128 \<and> char_of b \<in> set always_safe")
  case True
  then show ?thesis by (simp add: quote_byte_def)
next
  case False
  have "b div 16 < 16" "b mod 16 < 16" using assms by simp_all
  then have "hex_digit (b div 16) \<in> set hex_digits" "hex_digit (b mod 16) \<in> set hex_digits"
    by (simp_all only: hex_digit_mem)
  then show ?thesis using False by (simp add: quote_byte_def)
qed

lemma urllib_quote_chars:
  "set (urllib_quote s) \<subseteq> set always_safe \<union> insert CHR ''%'' (set hex_digits)"
proof
  fix x assume "x \<in> set (urllib_quote s)"
  then obtain b c where "c \<in> set s" "b \<in> set (utf8 c)" "x \<in> set (quote_byte b)"
    by (auto simp: urllib_quote_def)
  then show "x \<in> set always_safe \<union> insert CHR ''%'' (set hex_digits)"
    using quote_byte_chars [OF utf8_byte] by blast
qed

lemma py_join_chars: "set (py_join sep ps) \<subseteq> insert sep (\<Union> (set ` set ps))"
  by (induction sep ps rule: py_join.induct) auto

lemma py_split_chars: "\<Union> (set ` set (py_split sep s)) \<subseteq> set s"
proof (induction s)
  case Nil
  then show ?case by simp
next
  case (Cons c s)
  then show ?case by (cases "py_split sep s") (auto split: if_splits)
qed

lemma query_parts_chars: "p \<in> set (query_parts q) \<Longrightarrow> set p \<subseteq> set q"
  using py_split_chars [of sep q for sep] by (auto simp: query_parts_def split: if_splits)

lemma rewrite_first_chars:
  "rewrite_first P f ps = Some ps' \<Longrightarrow> p' \<in> set ps' \<Longrightarrow> p' \<in> set ps \<or> (\<exists>p\<in>set ps. p' = f p)"
  by (induction ps arbitrary: ps') (auto split: if_splits)

lemma sub_format_chars: "set (sub_format fmt seg) \<subseteq> set seg \<union> set ''/format/'' \<union> set fmt"
proof (induction seg)
  case Nil
  then show ?case by simp
next
  case (Cons c cs)
  show ?case
  proof (cases "prefix ''/format/'' (c # cs)")
    case True
    have "set (dropWhile (\<lambda>x. x \<notin> set ''/&?'') (drop (length ''/format/'') (c # cs))) \<subseteq> set (c # cs)"
      using set_dropWhileD set_drop_subset by fastforce
    then show ?thesis using True by (auto simp del: drop_Suc_Cons)
  next
    case False
    then show ?thesis using Cons by auto
  qed
qed

lemma format_segment_chars:
  "set (format_segment fmt seg) \<subseteq> set seg \<union> set ''/format/'' \<union> set fmt"
proof (cases "py_in ''/format/'' seg")
  case True
  then show ?thesis using sub_format_chars [of fmt seg] by (simp add: format_segment_def)
next
  case False
  have "set (rev (dropWhile (\<lambda>c. c = CHR ''/'') (rev seg))) \<subseteq> set seg"
    using set_dropWhileD by fastforce
  then show ?thesis using False by (auto simp: format_segment_def)
qed

lemma join_rewrite_chars:
  assumes "\<And>p. p \<in> set ps \<Longrightarrow> set p \<subseteq> A"
      and "set extra \<subseteq> A"
      and "\<And>p. p \<in> set ps \<Longrightarrow> set (f p) \<subseteq> A"
      and "sep \<in> A"
  shows "set (py_join sep (case rewrite_first P f ps of
                             None \<Rightarrow> ps @ [extra] | Some parts \<Rightarrow> parts)) \<subseteq> A"
proof -
  let ?parts = "case rewrite_first P f ps of None \<Rightarrow> ps @ [extra] | Some parts \<Rightarrow> parts"
  have "set p \<subseteq> A" if "p \<in> set ?parts" for p
  proof (cases "rewrite_first P f ps")
    case None
    then have "p \<in> set ps \<or> p = extra" using that by auto
    then show ?thesis using assms(1,2) by blast
  next
    case (Some parts)
    then have "p \<in> set ps \<or> (\<exists>p0\<in>set ps. p = f p0)"
      using that rewrite_first_chars [OF Some, of p] by simp
    then show ?thesis using assms(1,3) by blast
  qed
  then show ?thesis using py_join_chars [of sep ?parts] assms(4) by blast
qed

lemma set_format_in_query_chars:
  assumes "set q \<subseteq> A" and "set ''&imageMogr2/format/'' \<subseteq> A" and "set fmt \<subseteq> A"
  shows "set (set_format_in_query q fmt) \<subseteq> A"
  unfolding set_format_in_query_def
proof (rule join_rewrite_chars)
  show "set p \<subseteq> A" if "p \<in> set (query_parts q)" for p
    using query_parts_chars [OF that] assms(1) by blast
  have "set ''imageMogr2/format/'' \<subseteq> A" using assms(2) by simp
  then show "set (''imageMogr2/format/'' @ fmt) \<subseteq> A"
    using assms(3) by (simp only: set_append Un_subset_iff)
  have slash: "set ''/format/'' \<subseteq> A" using assms(2) by simp
  show "set (format_segment fmt p) \<subseteq> A" if "p \<in> set (query_parts q)" for p
    using format_segment_chars [of fmt p] query_parts_chars [OF that] assms(1,3) slash by blast
  show "CHR ''&'' \<in> A" using assms(2) by simp
qed

lemma set_attname_in_query_chars:
  assumes "set q \<subseteq> A" and "set ''&attname='' \<subseteq> A" and "set (quote name) \<subseteq> A"
  shows "set (set_attname_in_query quote q name) \<subseteq> A"
  unfolding set_attname_in_query_def
proof (rule join_rewrite_chars)
  show "set p \<subseteq> A" if "p \<in> set (query_parts q)" for p
    using query_parts_chars [OF that] assms(1) by blast
  have "set ''attname='' \<subseteq> A" using assms(2) by simp
  then show both: "set (''attname='' @ quote name) \<subseteq> A"
    using assms(3) by (simp only: set_append Un_subset_iff)
  show "set (''attname='' @ quote name) \<subseteq> A" if "p \<in> set (query_parts q)" for p
    by (rule both)
  show "CHR ''&'' \<in> A" using assms(2) by simp
qed

lemma normalize_fmt_value: "normalize_fmt fmt = Inr f \<Longrightarrow> f = ''jpg'' \<or> f = ''png''"
  by (auto simp: normalize_fmt_def Let_def split: if_splits)

lemma new_query_clean:
  assumes "normalize_fmt fmt = Inr f"
      and "x \<in> set (set_attname_in_query urllib_quote (set_format_in_query q f) name)"
      and "x \<notin> set q"
  shows "\<not> unsafe_url_byte x \<and> x \<noteq> CHR ''#''"
proof -
  define A where "A = set q \<union> {c. \<not> unsafe_url_byte c \<and> c \<noteq> CHR ''#''}"
  have q: "set q \<subseteq> A" by (simp add: A_def)
  have t1: "set ''&imageMogr2/format/'' \<subseteq> A"
    using good_format_text unfolding list_all_iff A_def by blast
  have t2: "set ''&attname='' \<subseteq> A"
    using good_attname_text unfolding list_all_iff A_def by blast
  have "set ''jpg'' \<subseteq> A" "set ''png'' \<subseteq> A"
    using good_jpg good_png unfolding list_all_iff A_def by blast+
  then have f: "set f \<subseteq> A"
    using normalize_fmt_value [OF assms(1)] by blast
  have "set always_safe \<subseteq> A" "set (CHR ''%'' # hex_digits) \<subseteq> A"
    using good_always_safe good_hex_digits unfolding list_all_iff A_def by blast+
  then have "set always_safe \<union> insert CHR ''%'' (set hex_digits) \<subseteq> A"
    by (simp only: list.set Un_subset_iff)
  then have n: "set (urllib_quote name) \<subseteq> A"
    using urllib_quote_chars [of name] by blast
  have "set (set_attname_in_query urllib_quote (set_format_in_query q f) name) \<subseteq> A"
    by (rule set_attname_in_query_chars
          [where quote = urllib_quote and name = name, OF set_format_in_query_chars [OF q t1 f] t2 n])
  then show ?thesis using assms(2,3) unfolding A_def by blast
qed

subsection \<open>Splitting what \<^verbatim>\<open>urlunsplit\<close> assembles\<close>

lemma takeWhile_stop: "\<forall>x\<in>set a. P x \<Longrightarrow> \<not> P y \<Longrightarrow> takeWhile P (a @ y # b) = a"
  by (induction a) auto

lemma dropWhile_stop: "\<forall>x\<in>set a. P x \<Longrightarrow> \<not> P y \<Longrightarrow> dropWhile P (a @ y # b) = y # b"
  by (induction a) auto

lemma takeWhile_whole: "\<forall>x\<in>set a. P x \<Longrightarrow> takeWhile P a = a"
  by (induction a) auto

lemma dropWhile_whole: "\<forall>x\<in>set a. P x \<Longrightarrow> dropWhile P a = []"
  by (induction a) auto

lemma split_once_joined:
  assumes "sep \<notin> set a"
  shows "split_once sep (a @ (if b = [] then [] else sep # b)) = (a, b)"
proof (cases "b = []")
  case True
  then show ?thesis using assms by (simp add: split_once_def)
next
  case False
  have all: "\<forall>x\<in>set a. x \<noteq> sep" using assms by blast
  have "takeWhile (\<lambda>c. c \<noteq> sep) (a @ sep # b) = a"
    using all by (rule takeWhile_stop) simp
  moreover have "dropWhile (\<lambda>c. c \<noteq> sep) (a @ sep # b) = sep # b"
    using all by (rule dropWhile_stop) simp
  ultimately show ?thesis using False by (simp add: split_once_def)
qed

lemma splitnetloc_joined:
  assumes "\<forall>c\<in>set n. c \<notin> set ''/?#''" and "rest = [] \<or> hd rest \<in> set ''/?#''"
  shows "splitnetloc (''//'' @ n @ rest) = (n, rest)"
proof (cases rest)
  case Nil
  then show ?thesis
    using takeWhile_whole [OF assms(1)] dropWhile_whole [OF assms(1)]
    by (simp add: splitnetloc_def)
next
  case (Cons y r)
  then have y: "\<not> y \<notin> set ''/?#''" using assms(2) by simp
  have "takeWhile (\<lambda>c. c \<notin> set ''/?#'') (n @ y # r) = n"
    using assms(1) y by (rule takeWhile_stop)
  moreover have "dropWhile (\<lambda>c. c \<notin> set ''/?#'') (n @ y # r) = y # r"
    using assms(1) y by (rule dropWhile_stop)
  ultimately show ?thesis using Cons by (simp add: splitnetloc_def)
qed

lemma scheme_char_props:
  assumes "c \<in> set scheme_chars"
  shows "py_lower_char c \<in> set scheme_chars"
    and "py_lower_char (py_lower_char c) = py_lower_char c"
    and "\<not> unsafe_url_byte c"
    and "c \<noteq> CHR '':''"
    and "ascii_alpha c \<Longrightarrow> ascii_alpha (py_lower_char c)"
  using scheme_chars_facts assms unfolding list_all_iff by blast+

lemma delimiter_props:
  assumes "c \<in> set ''/?#:''"
  shows "\<not> unsafe_url_byte c" and "\<not> c0_control_or_space c" and "\<not> ascii_alpha c"
  using delimiter_facts assms unfolding list_all_iff by blast+

lemma ascii_alpha_not_c0: "ascii_alpha c \<Longrightarrow> \<not> c0_control_or_space c"
  by (auto simp: ascii_alpha_def c0_control_or_space_def)

lemma split_scheme_joined:
  assumes "s \<noteq> []" and "ascii_alpha (hd s)" and "list_all (\<lambda>c. c \<in> set scheme_chars) s"
      and "py_lower s = s"
  shows "split_scheme (s @ CHR '':'' # rest) = (s, rest)"
proof -
  have all: "\<forall>x\<in>set s. x \<noteq> CHR '':''"
    using assms(3) scheme_char_props(4) unfolding list_all_iff by blast
  have front: "takeWhile (\<lambda>c. c \<noteq> CHR '':'') (s @ CHR '':'' # rest) = s"
    using all by (rule takeWhile_stop) simp
  have rear: "dropWhile (\<lambda>c. c \<noteq> CHR '':'') (s @ CHR '':'' # rest) = CHR '':'' # rest"
    using all by (rule dropWhile_stop) simp
  have "hd (s @ CHR '':'' # rest) = hd s" using assms(1) by simp
  then show ?thesis
    unfolding split_scheme_def front rear Let_def using assms by simp
qed

lemma split_scheme_none: "\<not> ascii_alpha (hd u) \<Longrightarrow> split_scheme u = ([], u)"
  by (simp add: split_scheme_def Let_def)

lemma urlsplit_unsplit:
  assumes sch: "s = [] \<or> (ascii_alpha (hd s) \<and> list_all (\<lambda>c. c \<in> set scheme_chars) s \<and>
                            py_lower s = s)"
      and nl: "\<forall>c\<in>set n. c \<notin> set ''/?#''"
      and pth: "p = [] \<or> hd p = CHR ''/''" "CHR ''?'' \<notin> set p" "CHR ''#'' \<notin> set p"
      and qry: "CHR ''#'' \<notin> set q"
      and safe: "\<forall>c\<in>set (n @ p @ q @ f). \<not> unsafe_url_byte c"
      and chk: "\<not> netloc_raises netloc_check n"
  shows "urllib_urlsplit netloc_check
           (unsplit_with True \<lparr>scheme = s, netloc = n, path = p, query = q, fragment = f\<rparr>) =
         Inr \<lparr>scheme = s, netloc = n, path = p, query = q, fragment = f\<rparr>"
proof -
  define Q where "Q = (if q = [] then [] else CHR ''?'' # q)"
  define F where "F = (if f = [] then [] else CHR ''#'' # f)"
  define S where "S = (if s = [] then [] else s @ '':'')"
  define body where "body = ''//'' @ n @ (p @ Q) @ F"
  have "p = [] \<or> take 1 p = ''/''"
    using pth(1) by (cases p) auto
  then have out: "unsplit_with True \<lparr>scheme = s, netloc = n, path = p, query = q, fragment = f\<rparr> =
                  S @ body"
    by (auto simp: unsplit_with_def S_def body_def Q_def F_def)
  have slash: "\<not> unsafe_url_byte CHR ''/''" "\<not> c0_control_or_space CHR ''/''"
              "\<not> ascii_alpha CHR ''/''" "\<not> unsafe_url_byte CHR ''?''"
              "\<not> unsafe_url_byte CHR ''#''" "\<not> unsafe_url_byte CHR '':''"
    using delimiter_props by simp_all
  have s_safe: "\<forall>c\<in>set s. \<not> unsafe_url_byte c"
    using sch scheme_char_props(3) unfolding list_all_iff by auto
  have "\<forall>c\<in>set Q. \<not> unsafe_url_byte c" "\<forall>c\<in>set F. \<not> unsafe_url_byte c"
       "\<forall>c\<in>set S. \<not> unsafe_url_byte c"
    using safe slash s_safe by (auto simp: Q_def F_def S_def)
  then have "\<forall>c\<in>set (S @ body). \<not> unsafe_url_byte c"
    using safe slash by (auto simp: body_def)
  then have keep: "filter (\<lambda>c. \<not> unsafe_url_byte c) (S @ body) = S @ body"
    by (simp only: filter_id_conv)
  have start: "dropWhile c0_control_or_space (S @ body) = S @ body"
  proof (cases "s = []")
    case True
    then show ?thesis using slash(2) by (simp add: S_def body_def)
  next
    case False
    then obtain c cs where s: "s = c # cs" by (cases s) auto
    then have "\<not> c0_control_or_space c" using sch ascii_alpha_not_c0 by auto
    then show ?thesis using s by (simp add: S_def)
  qed
  have sc: "split_scheme (S @ body) = (s, body)"
  proof (cases "s = []")
    case True
    have "\<not> ascii_alpha (hd body)" using slash(3) by (simp add: body_def)
    then show ?thesis using True split_scheme_none by (simp add: S_def)
  next
    case False
    then have "split_scheme (s @ CHR '':'' # body) = (s, body)"
      using sch by (intro split_scheme_joined) auto
    then show ?thesis using False by (simp add: S_def)
  qed
  have two: "take 2 body = ''//''" by (simp add: body_def)
  have rest: "(p @ Q) @ F = [] \<or> hd ((p @ Q) @ F) \<in> set ''/?#''"
  proof (cases p)
    case (Cons c cs)
    then show ?thesis using pth(1) by simp
  next
    case Nil
    then show ?thesis by (cases "q = []"; cases "f = []") (simp_all add: Q_def F_def)
  qed
  have "splitnetloc (''//'' @ n @ (p @ Q) @ F) = (n, (p @ Q) @ F)"
    using nl rest by (rule splitnetloc_joined)
  then have sn: "splitnetloc body = (n, (p @ Q) @ F)" by (simp only: body_def)
  have "CHR ''#'' \<notin> set (p @ Q)" using pth(3) qry by (simp add: Q_def)
  then have "split_once CHR ''#'' ((p @ Q) @ (if f = [] then [] else CHR ''#'' # f)) = (p @ Q, f)"
    by (rule split_once_joined)
  then have fr: "split_once CHR ''#'' (p @ Q @ F) = (p @ Q, f)" by (simp add: F_def)
  have "split_once CHR ''?'' (p @ (if q = [] then [] else CHR ''?'' # q)) = (p, q)"
    using pth(2) by (rule split_once_joined)
  then have qr: "split_once CHR ''?'' (p @ Q) = (p, q)" by (simp only: Q_def)
  show ?thesis
    unfolding out urllib_urlsplit_def Let_def start keep sc prod.case two sn
    using chk by (simp add: fr qr)
qed

subsection \<open>What \<^verbatim>\<open>urlsplit\<close> returns\<close>

lemma split_scheme_result:
  assumes "split_scheme u = (s, r)"
  shows "s = [] \<or> (ascii_alpha (hd s) \<and> list_all (\<lambda>c. c \<in> set scheme_chars) s \<and>
                     py_lower s = s)"
    and "set r \<subseteq> set u"
proof -
  let ?front = "takeWhile (\<lambda>c. c \<noteq> CHR '':'') u"
  let ?found = "CHR '':'' \<in> set u \<and> ?front \<noteq> [] \<and> ascii_alpha (hd u) \<and>
                list_all (\<lambda>c. c \<in> set scheme_chars) ?front"
  have tail: "set (tl (dropWhile (\<lambda>c. c \<noteq> CHR '':'') u)) \<subseteq> set u"
  proof
    fix x assume "x \<in> set (tl (dropWhile (\<lambda>c. c \<noteq> CHR '':'') u))"
    then have "x \<in> set (dropWhile (\<lambda>c. c \<noteq> CHR '':'') u)"
      by (cases "dropWhile (\<lambda>c. c \<noteq> CHR '':'') u") simp_all
    then show "x \<in> set u" by (rule set_dropWhileD)
  qed
  show "set r \<subseteq> set u"
    using assms tail by (auto simp: split_scheme_def Let_def split: if_splits)
  show "s = [] \<or> (ascii_alpha (hd s) \<and> list_all (\<lambda>c. c \<in> set scheme_chars) s \<and>
                   py_lower s = s)"
  proof (cases ?found)
    case False
    then have "s = []" using assms by (auto simp: split_scheme_def Let_def)
    then show ?thesis by simp
  next
    case True
    then have s: "s = py_lower ?front" using assms by (auto simp: split_scheme_def Let_def)
    have members: "\<forall>c\<in>set ?front. c \<in> set scheme_chars"
      using True unfolding list_all_iff by blast
    have same: "hd ?front = hd u" using True by (cases u) (auto split: if_splits)
    have "hd ?front \<in> set ?front" using True by (intro hd_in_set) simp
    then have "hd ?front \<in> set scheme_chars" using members by blast
    moreover have "ascii_alpha (hd ?front)" using True same by simp
    ultimately have "ascii_alpha (hd ?front)" "hd ?front \<in> set scheme_chars"
      by blast+
    then have "ascii_alpha (py_lower_char (hd ?front))"
      using scheme_char_props(5) by blast
    then have first: "ascii_alpha (hd s)"
      using True by (simp add: s py_lower_def hd_map)
    have all: "list_all (\<lambda>c. c \<in> set scheme_chars) s"
      using members scheme_char_props(1) by (simp add: s py_lower_def list_all_iff)
    have "py_lower s = s"
      using members scheme_char_props(2) by (simp add: s py_lower_def)
    then show ?thesis using first all by simp
  qed
qed

lemma splitnetloc_result:
  assumes "splitnetloc u = (n, r)"
  shows "\<forall>c\<in>set n. c \<notin> set ''/?#''" and "r = [] \<or> hd r \<in> set ''/?#''"
    and "set n \<subseteq> set u" and "set r \<subseteq> set u"
proof -
  let ?P = "\<lambda>c. c \<notin> set ''/?#''"
  have n: "n = takeWhile ?P (drop 2 u)" and r: "r = dropWhile ?P (drop 2 u)"
    using assms by (simp_all add: splitnetloc_def)
  show "\<forall>c\<in>set n. c \<notin> set ''/?#''"
    unfolding n using set_takeWhileD by fastforce
  show "r = [] \<or> hd r \<in> set ''/?#''"
    unfolding r using hd_dropWhile [of ?P "drop 2 u"] by blast
  show "set n \<subseteq> set u"
    unfolding n using set_takeWhileD in_set_dropD by fastforce
  show "set r \<subseteq> set u"
    unfolding r using set_dropWhileD in_set_dropD by fastforce
qed

lemma split_once_result:
  assumes "split_once sep u = (a, b)"
  shows "sep \<notin> set a" and "set a \<subseteq> set u" and "set b \<subseteq> set u" and "a = [] \<or> hd a = hd u"
proof -
  have tail: "set (tl (dropWhile (\<lambda>c. c \<noteq> sep) u)) \<subseteq> set u"
  proof
    fix x assume "x \<in> set (tl (dropWhile (\<lambda>c. c \<noteq> sep) u))"
    then have "x \<in> set (dropWhile (\<lambda>c. c \<noteq> sep) u)"
      by (cases "dropWhile (\<lambda>c. c \<noteq> sep) u") simp_all
    then show "x \<in> set u" by (rule set_dropWhileD)
  qed
  have front: "sep \<notin> set (takeWhile (\<lambda>c. c \<noteq> sep) u)"
    using set_takeWhileD by fastforce
  have sub: "set (takeWhile (\<lambda>c. c \<noteq> sep) u) \<subseteq> set u"
    using set_takeWhileD by fastforce
  have first: "takeWhile (\<lambda>c. c \<noteq> sep) u = [] \<or> hd (takeWhile (\<lambda>c. c \<noteq> sep) u) = hd u"
    by (cases u) auto
  show "sep \<notin> set a" using assms front by (auto simp: split_once_def split: if_splits)
  show "set a \<subseteq> set u" using assms sub by (auto simp: split_once_def split: if_splits)
  show "set b \<subseteq> set u" using assms tail by (auto simp: split_once_def split: if_splits)
  show "a = [] \<or> hd a = hd u" using assms first by (auto simp: split_once_def split: if_splits)
qed

lemma urlsplit_result:
  assumes "urllib_urlsplit netloc_check url = Inr sp" and "netloc sp \<noteq> []"
  shows "scheme sp = [] \<or>
         (ascii_alpha (hd (scheme sp)) \<and> list_all (\<lambda>c. c \<in> set scheme_chars) (scheme sp) \<and>
          py_lower (scheme sp) = scheme sp)"
    and "\<forall>c\<in>set (netloc sp). c \<notin> set ''/?#''"
    and "path sp = [] \<or> hd (path sp) = CHR ''/''"
    and "CHR ''?'' \<notin> set (path sp)"
    and "CHR ''#'' \<notin> set (path sp)"
    and "CHR ''#'' \<notin> set (query sp)"
    and "\<forall>c\<in>set (netloc sp @ path sp @ query sp @ fragment sp). \<not> unsafe_url_byte c"
    and "\<not> netloc_raises netloc_check (netloc sp)"
proof -
  define u1 where "u1 = filter (\<lambda>c. \<not> unsafe_url_byte c) (dropWhile c0_control_or_space url)"
  obtain s u2 where sc: "split_scheme u1 = (s, u2)" by (cases "split_scheme u1")
  obtain n u3 where
    sn: "(if take 2 u2 = ''//'' then splitnetloc u2 else ([], u2)) = (n, u3)"
    by (cases "if take 2 u2 = ''//'' then splitnetloc u2 else ([], u2)")
  obtain u4 f where fr: "split_once CHR ''#'' u3 = (u4, f)" by (cases "split_once CHR ''#'' u3")
  obtain p q where qr: "split_once CHR ''?'' u4 = (p, q)" by (cases "split_once CHR ''?'' u4")
  have unfolded: "urllib_urlsplit netloc_check url =
          (if netloc_raises netloc_check n then Inl ValueError
           else Inr \<lparr>scheme = s, netloc = n, path = p, query = q, fragment = f\<rparr>)"
    unfolding urllib_urlsplit_def Let_def u1_def [symmetric] sc prod.case sn fr qr ..
  then have ok: "\<not> netloc_raises netloc_check n"
    and sp: "sp = \<lparr>scheme = s, netloc = n, path = p, query = q, fragment = f\<rparr>"
    using assms(1) by (auto split: if_splits)
  have "n \<noteq> []" using assms(2) sp by simp
  then have net: "splitnetloc u2 = (n, u3)" using sn by (auto split: if_splits)
  have u1: "\<forall>c\<in>set u1. \<not> unsafe_url_byte c" by (simp add: u1_def)
  have u2: "set u2 \<subseteq> set u1" using split_scheme_result(2) [OF sc] .
  have n: "set n \<subseteq> set u2" and u3: "set u3 \<subseteq> set u2"
    using splitnetloc_result(3,4) [OF net] by blast+
  have u4: "set u4 \<subseteq> set u3" and f: "set f \<subseteq> set u3"
    using split_once_result(2,3) [OF fr] by blast+
  have p: "set p \<subseteq> set u4" and q: "set q \<subseteq> set u4"
    using split_once_result(2,3) [OF qr] by blast+
  have no_hash: "CHR ''#'' \<notin> set u4" using split_once_result(1) [OF fr] .
  have no_mark: "CHR ''?'' \<notin> set p" using split_once_result(1) [OF qr] .
  show "scheme sp = [] \<or>
         (ascii_alpha (hd (scheme sp)) \<and> list_all (\<lambda>c. c \<in> set scheme_chars) (scheme sp) \<and>
          py_lower (scheme sp) = scheme sp)"
    using split_scheme_result(1) [OF sc] by (simp add: sp)
  show "\<forall>c\<in>set (netloc sp). c \<notin> set ''/?#''"
    using splitnetloc_result(1) [OF net] by (simp only: sp split_result.simps)
  show "CHR ''?'' \<notin> set (path sp)" using no_mark by (simp add: sp)
  show hash: "CHR ''#'' \<notin> set (path sp)" using no_hash p by (auto simp: sp)
  show "CHR ''#'' \<notin> set (query sp)" using no_hash q by (auto simp: sp)
  show "\<forall>c\<in>set (netloc sp @ path sp @ query sp @ fragment sp). \<not> unsafe_url_byte c"
  proof
    fix c assume "c \<in> set (netloc sp @ path sp @ query sp @ fragment sp)"
    then have "c \<in> set n \<or> c \<in> set p \<or> c \<in> set q \<or> c \<in> set f" by (auto simp: sp)
    then have "c \<in> set u1" using n p q f u4 u3 u2 by blast
    then show "\<not> unsafe_url_byte c" using u1 by blast
  qed
  show "\<not> netloc_raises netloc_check (netloc sp)" using ok by (simp add: sp)
  show "path sp = [] \<or> hd (path sp) = CHR ''/''"
  proof (cases "p = []")
    case True
    then show ?thesis by (simp add: sp)
  next
    case False
    then have first: "hd p \<in> set p" by (rule hd_in_set)
    have "u4 \<noteq> []" using False p by auto
    then have "u3 \<noteq> []" using u4 by auto
    have "hd p = hd u4" using split_once_result(4) [OF qr] False by blast
    also have "\<dots> = hd u3" using split_once_result(4) [OF fr] \<open>u4 \<noteq> []\<close> by blast
    finally have "hd p \<in> set ''/?#''"
      using splitnetloc_result(2) [OF net] \<open>u3 \<noteq> []\<close> by simp
    moreover have "hd p \<noteq> CHR ''?''" using first no_mark by metis
    moreover have "hd p \<noteq> CHR ''#''" using first no_hash p by (metis subsetD)
    ultimately show ?thesis by (simp add: sp)
  qed
qed

lemma unsplit_with_netloc:
  assumes "netloc c \<noteq> []" and "urlunsplit = urlunsplit_3_11 \<or> urlunsplit = urlunsplit_3_12"
  shows "urlunsplit c = unsplit_with True c"
  using assms by (auto simp: urlunsplit_3_11_def urlunsplit_3_12_def)

lemma normalize_fmt_accepts:
  "py_strip (py_lower fmt) \<in> {''jpg'', ''png'', ''jpeg''} \<Longrightarrow> \<exists>f. normalize_fmt fmt = Inr f"
  by (auto simp: normalize_fmt_def Let_def)

lemma convert_url_value:
  "normalize_fmt fmt = Inr f \<Longrightarrow> urlsplit url = Inr sp \<Longrightarrow>
   convert_url urlsplit urlunsplit quote url fmt filename =
     Inr (urlunsplit
            \<lparr>scheme = scheme sp, netloc = netloc sp, path = path sp,
             query = set_attname_in_query quote (set_format_in_query (query sp) f)
                       (case filename of
                          None \<Rightarrow> derive_basename_from_path (path sp) @ ''.'' @ f
                        | Some name \<Rightarrow>
                            if name = [] then derive_basename_from_path (path sp) @ ''.'' @ f
                            else name),
             fragment = fragment sp\<rparr>)"
  by (simp add: convert_url_def Let_def)

subsection \<open>Evaluations\<close>

lemma quote_example:
  "urllib_quote (''a b/'' @ [char_of (233 :: nat)] @ ''~#.png'') = ''a%20b%2F%C3%A9~%23.png''"
  by code_simp

lemma split_https_a_b:
  "urllib_urlsplit (\<lambda>n. True) ''https:a!b'' =
     Inr \<lparr>scheme = ''https'', netloc = [], path = ''a!b'', query = [], fragment = []\<rparr>"
  by code_simp

lemma convert_https_a_b_3_11:
  "convert_url (urllib_urlsplit (\<lambda>n. True)) urlunsplit_3_11 urllib_quote ''https:a!b'' ''png'' None =
     Inr ''https:///a!b?imageMogr2/format/png&attname=a.png''"
  by code_simp

lemma convert_https_a_b_3_12:
  "convert_url (urllib_urlsplit (\<lambda>n. True)) urlunsplit_3_12 urllib_quote ''https:a!b'' ''png'' None =
     Inr ''https:///a!b?imageMogr2/format/png&attname=a.png''"
  by code_simp

lemma split_returned_a_b:
  "urllib_urlsplit (\<lambda>n. True) ''https:///a!b?imageMogr2/format/png&attname=a.png'' =
     Inr \<lparr>scheme = ''https'', netloc = [], path = ''/a!b'',
          query = ''imageMogr2/format/png&attname=a.png'', fragment = []\<rparr>"
  by code_simp

lemma split_demo_url:
  "urllib_urlsplit (\<lambda>n. True) demo_url =
     Inr \<lparr>scheme = ''https'', netloc = ''sns-webpic-qc.xhscdn.com'',
          path = ''/notes_pre_post/1040g3k0!nd_dft_wlteh_jpg_3'', query = [], fragment = []\<rparr>"
  by code_simp

lemma lower_PNG: "py_strip (py_lower ''PNG'') = ''png''"
  by code_simp

lemma convert_demo_url_3_11:
  "convert_url (urllib_urlsplit (\<lambda>n. True)) urlunsplit_3_11 urllib_quote demo_url ''PNG'' None =
     Inr (demo_url @ ''?imageMogr2/format/png&attname=1040g3k0.png'')"
  by code_simp

text \<open>
  With the \<^verbatim>\<open>urlunsplit\<close> of 3.12.3 a path that begins with \<^verbatim>\<open>//\<close> is written without a
  network location before it, and its first segment is read as the network location.
\<close>

lemma split_slashes_3_12:
  "urllib_urlsplit (\<lambda>n. True) ''https:////h/a/b!c'' =
     Inr \<lparr>scheme = ''https'', netloc = [], path = ''//h/a/b!c'', query = [], fragment = []\<rparr> \<and>
   convert_url (urllib_urlsplit (\<lambda>n. True)) urlunsplit_3_12 urllib_quote ''https:////h/a/b!c'' ''png'' None =
     Inr ''https://h/a/b!c?imageMogr2/format/png&attname=b.png'' \<and>
   urllib_urlsplit (\<lambda>n. True) ''https://h/a/b!c?imageMogr2/format/png&attname=b.png'' =
     Inr \<lparr>scheme = ''https'', netloc = ''h'', path = ''/a/b!c'',
          query = ''imageMogr2/format/png&attname=b.png'', fragment = []\<rparr>"
  by code_simp

subsection \<open>What the converter keeps of a URL\<close>

text \<open>
  Claim C10. The claim speaks of every input URL; the converter keeps the four
  components for the URLs that have a network location, as the image URLs have
  (\<^verbatim>\<open>https://sns-webpic-qc.xhscdn.com/...\<close>). For a format that, lowered and stripped, is
  \<^verbatim>\<open>jpg\<close>, \<^verbatim>\<open>png\<close> or \<^verbatim>\<open>jpeg\<close>, any file name, and a URL that \<^verbatim>\<open>urlsplit\<close> splits with a
  network location that is not empty, \<^verbatim>\<open>convert_url\<close> returns a URL that \<^verbatim>\<open>urlsplit\<close>
  splits again, into the scheme, the network location, the path (with its \<^verbatim>\<open>!\<close> segment)
  and the fragment of the input URL. This holds with the \<^verbatim>\<open>urlunsplit\<close> of Python 3.11.10
  and with that of 3.12.3, and whatever the verdicts of the bracket and NFKC checks are.
\<close>

theorem convert_url_keeps_url_with_netloc:
  assumes "py_strip (py_lower fmt) \<in> {''jpg'', ''png'', ''jpeg''}"
      and "urllib_urlsplit netloc_check url = Inr sp"
      and "netloc sp \<noteq> []"
      and "urlunsplit = urlunsplit_3_11 \<or> urlunsplit = urlunsplit_3_12"
  shows "\<exists>returned sp'.
           convert_url (urllib_urlsplit netloc_check) urlunsplit urllib_quote url fmt filename =
             Inr returned \<and>
           urllib_urlsplit netloc_check returned = Inr sp' \<and>
           scheme sp' = scheme sp \<and> netloc sp' = netloc sp \<and>
           path sp' = path sp \<and> fragment sp' = fragment sp"
proof -
  obtain f where f: "normalize_fmt fmt = Inr f"
    using assms(1) normalize_fmt_accepts by blast
  define name where
    "name = (case filename of
               None \<Rightarrow> derive_basename_from_path (path sp) @ ''.'' @ f
             | Some name \<Rightarrow>
                 if name = [] then derive_basename_from_path (path sp) @ ''.'' @ f else name)"
  define q where "q = set_attname_in_query urllib_quote (set_format_in_query (query sp) f) name"
  define parts where
    "parts = \<lparr>scheme = scheme sp, netloc = netloc sp, path = path sp, query = q,
              fragment = fragment sp\<rparr>"
  note known = urlsplit_result [OF assms(2,3)]
  have "convert_url (urllib_urlsplit netloc_check) urlunsplit urllib_quote url fmt filename =
          Inr (urlunsplit parts)"
    unfolding parts_def q_def name_def using f assms(2) by (rule convert_url_value)
  moreover have "netloc parts \<noteq> []" using assms(3) by (simp add: parts_def)
  then have "urlunsplit parts = unsplit_with True parts"
    using assms(4) by (rule unsplit_with_netloc)
  ultimately have returned:
    "convert_url (urllib_urlsplit netloc_check) urlunsplit urllib_quote url fmt filename =
       Inr (unsplit_with True parts)"
    by simp
  have clean: "\<not> unsafe_url_byte c \<and> c \<noteq> CHR ''#''" if "c \<in> set q" for c
  proof (cases "c \<in> set (query sp)")
    case True
    then show ?thesis using known(6,7) by auto
  next
    case False
    then show ?thesis using new_query_clean [OF f] that unfolding q_def by blast
  qed
  have hash: "CHR ''#'' \<notin> set q" using clean by blast
  have safe: "\<forall>c\<in>set (netloc sp @ path sp @ q @ fragment sp). \<not> unsafe_url_byte c"
    using known(7) clean by auto
  have "urllib_urlsplit netloc_check (unsplit_with True parts) = Inr parts"
    unfolding parts_def
    using known(1) known(2) known(3) known(4) known(5) hash safe known(8)
    by (rule urlsplit_unsplit)
  then show ?thesis using returned by (simp add: parts_def)
qed

text \<open>
  The URL of the demonstration, converted by \<^verbatim>\<open>to_png\<close> with the \<^verbatim>\<open>urlunsplit\<close> of 3.11.10.
\<close>

theorem convert_url_keeps_url_with_netloc_witness:
  "\<exists>returned sp'.
     convert_url (urllib_urlsplit (\<lambda>n. True)) urlunsplit_3_11 urllib_quote demo_url ''PNG'' None =
       Inr returned \<and>
     urllib_urlsplit (\<lambda>n. True) returned = Inr sp' \<and>
     scheme sp' = ''https'' \<and> netloc sp' = ''sns-webpic-qc.xhscdn.com'' \<and>
     path sp' = ''/notes_pre_post/1040g3k0!nd_dft_wlteh_jpg_3'' \<and> fragment sp' = []"
  using convert_url_keeps_url_with_netloc
    [where fmt = "''PNG''" and netloc_check = "\<lambda>n. True" and url = demo_url
       and urlunsplit = urlunsplit_3_11 and filename = None, OF _ split_demo_url]
  by (simp add: lower_PNG)

text \<open>
  Without a network location the path can change. \<^verbatim>\<open>urlsplit\<close> reads \<^verbatim>\<open>https:a!b\<close> as the
  scheme \<^verbatim>\<open>https\<close> and the path \<^verbatim>\<open>a!b\<close>, with no network location. \<^verbatim>\<open>https\<close> is in
  \<^verbatim>\<open>uses_netloc\<close>, so \<^verbatim>\<open>urlunsplit\<close>, in 3.11.10 and in 3.12.3, writes \<^verbatim>\<open>//\<close> and puts a
  \<^verbatim>\<open>/\<close> before the path: \<^verbatim>\<open>convert_url\<close> returns
  \<^verbatim>\<open>https:///a!b?imageMogr2/format/png&attname=a.png\<close>, whose path is \<^verbatim>\<open>/a!b\<close>.
\<close>

theorem convert_url_changes_path_without_netloc:
  "urllib_urlsplit (\<lambda>n. True) ''https:a!b'' =
     Inr \<lparr>scheme = ''https'', netloc = [], path = ''a!b'', query = [], fragment = []\<rparr> \<and>
   convert_url (urllib_urlsplit (\<lambda>n. True)) urlunsplit_3_11 urllib_quote ''https:a!b'' ''png'' None =
     Inr ''https:///a!b?imageMogr2/format/png&attname=a.png'' \<and>
   convert_url (urllib_urlsplit (\<lambda>n. True)) urlunsplit_3_12 urllib_quote ''https:a!b'' ''png'' None =
     Inr ''https:///a!b?imageMogr2/format/png&attname=a.png'' \<and>
   urllib_urlsplit (\<lambda>n. True) ''https:///a!b?imageMogr2/format/png&attname=a.png'' =
     Inr \<lparr>scheme = ''https'', netloc = [], path = ''/a!b'',
          query = ''imageMogr2/format/png&attname=a.png'', fragment = []\<rparr>"
  by (intro conjI split_https_a_b convert_https_a_b_3_11 convert_https_a_b_3_12
      split_returned_a_b)

end
